theory Spec2Isabelle
  imports Complex_Main "HOL-Library.Multiset"
begin

section \<open>Image Archive conceptual network: the graph logic of script.js\<close>

text \<open>
  The script keeps a list of image nodes, links two nodes when they share a theme or a
  mood, filters and orders the nodes by a selected theme, and restyles nodes and links
  when the pointer hovers over a node. JavaScript strings are modelled as \<open>string\<close>
  (only their equality, emptiness and concatenation matter here), arrays as lists, and
  the numbers of the configuration and of the page geometry as rationals.
\<close>

subsection \<open>Data\<close>

text \<open>
  A node after \<open>loadData\<close>: the fields of the data.json entry, with \<open>name\<close>,
  \<open>themes\<close> and \<open>moods\<close> normalised by the loader. The field \<open>id\<close> of the
  source is \<open>item_id\<close> here, and the fields \<open>image\<close> and \<open>source\<close> of a node are
  \<open>item_image\<close> and \<open>item_source\<close> (a link has a \<open>source\<close> of its own).
\<close>

record item =
  item_id :: string
  item_image :: string
  item_source :: "string option"
  name :: string
  themes :: "string list"
  moods :: "string list"

text \<open>
  An endpoint of a link is the id string that \<open>buildLinks\<close> stores, or the node object
  that d3's link force puts in its place; \<open>setHover\<close> reads both forms.
\<close>

datatype endpoint = EId string | ENode item

record link =
  source :: endpoint
  target :: endpoint

subsection \<open>Links from shared themes or moods\<close>

text \<open>\<open>xs.includes(x)\<close> and \<open>xs.some(p)\<close> on arrays.\<close>

definition array_includes :: "'a list \<Rightarrow> 'a \<Rightarrow> bool" where
  "array_includes xs x = (x \<in> set xs)"

definition array_some :: "'a list \<Rightarrow> ('a \<Rightarrow> bool) \<Rightarrow> bool" where
  "array_some xs p = list_ex p xs"

definition nodesShareConnection :: "item \<Rightarrow> item \<Rightarrow> bool" where
  "nodesShareConnection a b =
     (let sharedTheme = array_some (themes a) (\<lambda>t. array_includes (themes b) t);
          sharedMood = array_some (moods a) (\<lambda>m. array_includes (moods b) m)
      in sharedTheme \<or> sharedMood)"

text \<open>
  The two nested \<open>for\<close> loops of \<open>buildLinks\<close>: the inner one runs \<open>j\<close> from its
  start value to the end of the array, the outer one runs \<open>i\<close> and starts the inner
  loop at \<open>i + 1\<close>. \<open>links.push\<close> appends at the end.
\<close>

function buildLinks_inner :: "item list \<Rightarrow> nat \<Rightarrow> nat \<Rightarrow> link list \<Rightarrow> link list" where
  "buildLinks_inner nodes i j links =
     (if j < length nodes
      then buildLinks_inner nodes i (j + 1)
             (if nodesShareConnection (nodes ! i) (nodes ! j)
              then links @ [\<lparr>source = EId (item_id (nodes ! i)),
                              target = EId (item_id (nodes ! j))\<rparr>]
              else links)
      else links)"
  by pat_completeness auto
termination
  by (relation "measure (\<lambda>(nodes, i, j, links). length nodes - j)") auto

declare buildLinks_inner.simps [simp del]

function buildLinks_outer :: "item list \<Rightarrow> nat \<Rightarrow> link list \<Rightarrow> link list" where
  "buildLinks_outer nodes i links =
     (if i < length nodes
      then buildLinks_outer nodes (i + 1) (buildLinks_inner nodes i (i + 1) links)
      else links)"
  by pat_completeness auto
termination
  by (relation "measure (\<lambda>(nodes, i, links). length nodes - i)") auto

declare buildLinks_outer.simps [simp del]

definition buildLinks :: "item list \<Rightarrow> link list" where
  "buildLinks nodes = buildLinks_outer nodes 0 []"

text \<open>
  The pairs of positions \<open>(i, j)\<close> with \<open>i < j < n\<close>, in the order the loops visit
  them, and the link of a pair of positions.
\<close>

definition index_pairs :: "nat \<Rightarrow> (nat \<times> nat) list" where
  "index_pairs n = concat (map (\<lambda>i. map (\<lambda>j. (i, j)) [i + 1..<n]) [0..<n])"

definition link_of :: "item list \<Rightarrow> nat \<times> nat \<Rightarrow> link" where
  "link_of nodes p =
     \<lparr>source = EId (item_id (nodes ! fst p)), target = EId (item_id (nodes ! snd p))\<rparr>"

definition tags_intersect :: "item list \<Rightarrow> nat \<times> nat \<Rightarrow> bool" where
  "tags_intersect nodes p =
     (set (themes (nodes ! fst p)) \<inter> set (themes (nodes ! snd p)) \<noteq> {}
      \<or> set (moods (nodes ! fst p)) \<inter> set (moods (nodes ! snd p)) \<noteq> {})"

subsection \<open>Theme filter and ordering\<close>

text \<open>
  \<open>!theme\<close> holds of the empty string only (the filter value is always a string: the
  \<open>data-theme\<close> attribute of a button, or \<open>""\<close>).
\<close>

definition applyThemeFilter :: "item list \<Rightarrow> string \<Rightarrow> item list" where
  "applyThemeFilter nodes theme =
     (if theme = [] then nodes
      else filter (\<lambda>n. array_includes (themes n) theme) nodes)"

text \<open>\<open>a || b\<close> on two strings: \<open>a\<close> unless it is the empty string.\<close>

definition or_else :: "string \<Rightarrow> string \<Rightarrow> string" where
  "or_else a b = (if a \<noteq> [] then a else b)"

text \<open>
  \<open>String.prototype.localeCompare\<close> is the platform's collation and not part of the
  script: the model takes it as a parameter \<open>lc\<close>, negative, zero or positive.
  A collation is consistent when swapping the arguments swaps the sign and
  "not after" is transitive.
\<close>

type_synonym collation = "string \<Rightarrow> string \<Rightarrow> int"

definition consistent :: "collation \<Rightarrow> bool" where
  "consistent lc \<longleftrightarrow>
     (\<forall>a b. (lc a b < 0) = (0 < lc b a)) \<and>
     (\<forall>a b c. lc a b \<le> 0 \<and> lc b c \<le> 0 \<longrightarrow> lc a c \<le> 0)"

text \<open>
  \<open>Array.prototype.sort(compare)\<close>: the sort is stable (ECMAScript 2019), so with a
  consistent comparison its result is the one that stable insertion produces: each
  element goes in front of the first element it is not after.
\<close>

fun sort_insert :: "('a \<Rightarrow> 'a \<Rightarrow> int) \<Rightarrow> 'a \<Rightarrow> 'a list \<Rightarrow> 'a list" where
  "sort_insert compare x [] = [x]"
| "sort_insert compare x (y # ys) =
     (if compare x y \<le> 0 then x # y # ys else y # sort_insert compare x ys)"

definition array_sort :: "('a \<Rightarrow> 'a \<Rightarrow> int) \<Rightarrow> 'a list \<Rightarrow> 'a list" where
  "array_sort compare xs = foldr (sort_insert compare) xs []"

text \<open>
  A comparison callback orders its arguments when any two of them compare one way or
  the other and "not after" is transitive.
\<close>

definition orders :: "('a \<Rightarrow> 'a \<Rightarrow> int) \<Rightarrow> bool" where
  "orders c \<longleftrightarrow>
     (\<forall>a b. c a b \<le> 0 \<or> c b a \<le> 0) \<and>
     (\<forall>a b d. c a b \<le> 0 \<and> c b d \<le> 0 \<longrightarrow> c a d \<le> 0)"

text \<open>The two comparison callbacks of \<open>sortNodesByTag\<close>.\<close>

definition compare_name :: "collation \<Rightarrow> item \<Rightarrow> item \<Rightarrow> int" where
  "compare_name lc a b = lc (or_else (name a) (item_id a)) (or_else (name b) (item_id b))"

definition compare_tag :: "collation \<Rightarrow> string \<Rightarrow> item \<Rightarrow> item \<Rightarrow> int" where
  "compare_tag lc tag a b =
     (let aHas = array_includes (themes a) tag;
          bHas = array_includes (themes b) tag
      in if aHas \<and> \<not> bHas then - 1
         else if \<not> aHas \<and> bHas then 1
         else lc (or_else (name a) (item_id a)) (or_else (name b) (item_id b)))"

definition sortNodesByTag :: "collation \<Rightarrow> item list \<Rightarrow> string \<Rightarrow> item list" where
  "sortNodesByTag lc nodes tag =
     (let list = nodes
      in if tag = [] then array_sort (compare_name lc) list
         else array_sort (compare_tag lc tag) list)"

text \<open>
  The same function on a store of arrays, where an array is named by its address (its
  position in the store): \<open>[...nodes]\<close> allocates a new array holding a copy, and
  \<open>sort\<close> overwrites the array it is called on.
\<close>

type_synonym store = "item list list"

definition spread_copy :: "store \<Rightarrow> nat \<Rightarrow> nat \<times> store" where
  "spread_copy h a = (length h, h @ [h ! a])"

definition sort_in_place :: "(item \<Rightarrow> item \<Rightarrow> int) \<Rightarrow> store \<Rightarrow> nat \<Rightarrow> store" where
  "sort_in_place compare h a = h[a := array_sort compare (h ! a)]"

definition sortNodesByTag_store :: "collation \<Rightarrow> store \<Rightarrow> nat \<Rightarrow> string \<Rightarrow> nat \<times> store" where
  "sortNodesByTag_store lc h nodes tag =
     (case spread_copy h nodes of
        (list, h1) \<Rightarrow>
          if tag = [] then (list, sort_in_place (compare_name lc) h1 list)
          else (list, sort_in_place (compare_tag lc tag) h1 list))"

text \<open>The key that both callbacks hand to the collation: \<open>a.name || a.id\<close>.\<close>

definition order_key :: "item \<Rightarrow> string" where
  "order_key a = or_else (name a) (item_id a)"

text \<open>
  A concrete collation, comparing character codes position by position, with a
  proper prefix first. It instantiates the statements made for every consistent
  collation.
\<close>

fun ordinal_compare :: collation where
  "ordinal_compare [] [] = 0"
| "ordinal_compare [] (y # ys) = - 1"
| "ordinal_compare (x # xs) [] = 1"
| "ordinal_compare (x # xs) (y # ys) =
     (if (of_char x :: nat) < of_char y then - 1
      else if (of_char y :: nat) < of_char x then 1
      else ordinal_compare xs ys)"

subsection \<open>Loading\<close>

text \<open>
  A \<open>themes\<close> or \<open>moods\<close> field of a data.json entry: omitted, an array of strings, or
  some other JSON value. Of a value that is not an array the loader observes two
  things only: whether it is truthy (\<open>d.themes || []\<close>) and the string that
  \<open>join\<close> makes of it.
\<close>

datatype raw_tags = Omitted | NonArray bool string | TagArray "string list"

record raw_entry =
  raw_id :: string
  raw_image :: string
  raw_source :: "string option"
  raw_name :: "string option"
  raw_themes :: raw_tags
  raw_moods :: raw_tags

text \<open>\<open>Array.isArray(v) ? v : []\<close>.\<close>

fun array_or_empty :: "raw_tags \<Rightarrow> string list" where
  "array_or_empty (TagArray ts) = ts"
| "array_or_empty (NonArray truthy shown) = []"
| "array_or_empty Omitted = []"

text \<open>
  What \<open>[].concat(v || [])\<close> adds: the elements of an array, a truthy value that is
  not an array as one element, and nothing for a falsy or missing value.
\<close>

fun concat_arg :: "raw_tags \<Rightarrow> string list" where
  "concat_arg (TagArray ts) = ts"
| "concat_arg (NonArray truthy shown) = (if truthy then [shown] else [])"
| "concat_arg Omitted = []"

fun join :: "string \<Rightarrow> string list \<Rightarrow> string" where
  "join sep [] = []"
| "join sep [x] = x"
| "join sep (x # y # ys) = x @ sep @ join sep (y # ys)"

definition derived_name :: "raw_entry \<Rightarrow> string" where
  "derived_name d = join '', '' (concat_arg (raw_themes d) @ concat_arg (raw_moods d))"

definition load_entry :: "raw_entry \<Rightarrow> item" where
  "load_entry d =
     \<lparr>item_id = raw_id d,
      item_image = raw_image d,
      item_source = raw_source d,
      name = (case raw_name d of
                None \<Rightarrow> derived_name d
              | Some n \<Rightarrow> or_else n (derived_name d)),
      themes = array_or_empty (raw_themes d),
      moods = array_or_empty (raw_moods d)\<rparr>"

text \<open>
  The outcome of \<open>fetch("data.json")\<close> and of parsing the response: the request may be
  rejected, the response may not be ok, the body may not parse, and the document may
  lack \<open>nodes\<close> (\<open>raw.nodes || []\<close>).
\<close>

datatype error = FetchRejected | FailedToLoad | ParseFailed | NodeNotFound string

datatype body = Unparsable | Document "raw_entry list option"

datatype fetched = Rejected | Response bool body

fun loadData :: "fetched \<Rightarrow> error + item list \<times> link list" where
  "loadData Rejected = Inl FetchRejected"
| "loadData (Response ok b) =
     (if \<not> ok then Inl FailedToLoad
      else case b of
        Unparsable \<Rightarrow> Inl ParseFailed
      | Document raw_nodes \<Rightarrow>
          (let nodes = map load_entry (case raw_nodes of None \<Rightarrow> [] | Some ds \<Rightarrow> ds);
               links = buildLinks nodes
           in Inr (nodes, links)))"

subsection \<open>Graph state, rendering and hover\<close>

record config =
  nodeRadius :: rat
  linkDistance :: rat
  chargeStrength :: rat
  centerStrength :: rat
  parallaxFactor :: rat
  hoverScale :: rat
  connectedScale :: rat
  unrelatedOpacity :: rat
  lineColor :: string
  lineColorHover :: string

definition CONFIG :: config where
  "CONFIG =
     \<lparr>nodeRadius = 36, linkDistance = 180, chargeStrength = - 400,
      centerStrength = 5 / 100, parallaxFactor = 12 / 100, hoverScale = 14 / 10,
      connectedScale = 11 / 10, unrelatedOpacity = 3 / 10,
      lineColor = ''#3A86FF'', lineColorHover = ''#6ba3ff''\<rparr>"

text \<open>
  The force simulation as far as the script configures it: the nodes and links bound
  to it, the parameters of its four forces, its temperature \<open>alpha\<close> and whether
  its timer runs.
\<close>

record simulation =
  sim_nodes :: "item list"
  link_force_links :: "link list"
  link_force_distance :: rat
  charge_force_strength :: rat
  center_force_x :: rat
  center_force_y :: rat
  center_force_strength :: rat
  collision_radius :: rat
  alpha :: rat
  alphaTarget :: rat
  running :: bool

record state =
  graphData_nodes :: "item list"
  graphData_links :: "link list"
  fullNodes :: "item list"
  sim :: "simulation option"
  activeThemeFilter :: string
  hoveredNodeId :: "string option"
  svg_width :: rat
  svg_height :: rat
  svg_viewBox :: "rat list"

text \<open>The bounding rectangle of the graph wrapper, read from the page.\<close>

record rect =
  rect_width :: rat
  rect_height :: rat

definition getDimensions :: "rect \<Rightarrow> rat \<times> rat" where
  "getDimensions r =
     (if rect_width r \<noteq> 0 then rect_width r else 1200, max (rect_height r) 800)"

text \<open>
  d3's link force, when it is bound to the nodes, replaces every endpoint that is not
  an object by the node with that id (the last one, if several nodes carry the id) and
  throws "node not found" when there is none. This is the library's behaviour, not code
  of the script.
\<close>

definition find_node :: "item list \<Rightarrow> string \<Rightarrow> error + item" where
  "find_node nodes nodeId =
     (case List.find (\<lambda>d. item_id d = nodeId) (rev nodes) of
        None \<Rightarrow> Inl (NodeNotFound nodeId)
      | Some d \<Rightarrow> Inr d)"

fun resolve_endpoint :: "item list \<Rightarrow> endpoint \<Rightarrow> error + endpoint" where
  "resolve_endpoint nodes (ENode d) = Inr (ENode d)"
| "resolve_endpoint nodes (EId s) =
     (case find_node nodes s of Inl e \<Rightarrow> Inl e | Inr d \<Rightarrow> Inr (ENode d))"

fun forceLink_initialize :: "item list \<Rightarrow> link list \<Rightarrow> error + link list" where
  "forceLink_initialize nodes [] = Inr []"
| "forceLink_initialize nodes (l # ls) =
     (case resolve_endpoint nodes (source l) of
        Inl e \<Rightarrow> Inl e
      | Inr src \<Rightarrow>
          (case resolve_endpoint nodes (target l) of
             Inl e \<Rightarrow> Inl e
           | Inr tgt \<Rightarrow>
               (case forceLink_initialize nodes ls of
                  Inl e \<Rightarrow> Inl e
                | Inr ls' \<Rightarrow> Inr (\<lparr>source = src, target = tgt\<rparr> # ls'))))"

text \<open>
  \<open>initGraph\<close>, as far as it changes the state: the size of the drawing surface and a
  new simulation over the given nodes and links, centred on the surface.
\<close>

definition initGraph :: "rect \<Rightarrow> item list \<Rightarrow> link list \<Rightarrow> state \<Rightarrow> error + state" where
  "initGraph r nodes links s =
     (case getDimensions r of
        (width, height) \<Rightarrow>
          (case forceLink_initialize nodes links of
             Inl e \<Rightarrow> Inl e
           | Inr bound \<Rightarrow>
               Inr (s\<lparr>svg_width := width, svg_height := height,
                      svg_viewBox := [0, 0, width, height],
                      sim := Some
                        \<lparr>sim_nodes = nodes,
                         link_force_links = bound,
                         link_force_distance = linkDistance CONFIG,
                         charge_force_strength = chargeStrength CONFIG,
                         center_force_x = width / 2,
                         center_force_y = height / 2,
                         center_force_strength = centerStrength CONFIG,
                         collision_radius = nodeRadius CONFIG * (22 / 10),
                         alpha = 1, alphaTarget = 0, running = True\<rparr>\<rparr>)))"

text \<open>
  \<open>typeof l.source === "object" ? l.source.id : l.source\<close>.
\<close>

fun endpoint_id :: "endpoint \<Rightarrow> string" where
  "endpoint_id (ENode d) = item_id d"
| "endpoint_id (EId s) = s"

text \<open>
  The hovered id is \<open>null\<close> or a string; \<open>if (nodeId)\<close> holds of a string that is not
  empty. A JavaScript \<open>Set\<close> of ids is a list without repetition, in insertion order.
\<close>

fun truthy :: "string option \<Rightarrow> bool" where
  "truthy None = False"
| "truthy (Some s) = (s \<noteq> [])"

definition set_add :: "string list \<Rightarrow> string \<Rightarrow> string list" where
  "set_add ids x = (if x \<in> set ids then ids else ids @ [x])"

definition set_has :: "string list \<Rightarrow> string \<Rightarrow> bool" where
  "set_has ids x = (x \<in> set ids)"

definition connect_step :: "string option \<Rightarrow> string list \<Rightarrow> link \<Rightarrow> string list" where
  "connect_step nodeId connectedIds l =
     (let sid = endpoint_id (source l);
          tid = endpoint_id (target l);
          ids1 = (if Some sid = nodeId then set_add connectedIds tid else connectedIds)
      in if Some tid = nodeId then set_add ids1 sid else ids1)"

definition connected_ids :: "string option \<Rightarrow> link list \<Rightarrow> string list" where
  "connected_ids nodeId links =
     (if truthy nodeId then foldl (connect_step nodeId) [] links else [])"

record node_style =
  node_hovered :: bool
  node_connected :: bool
  opacity :: rat
  scale :: rat

record link_style =
  hovered :: bool
  dimmed :: bool
  stroke :: string

definition style_node :: "string option \<Rightarrow> string list \<Rightarrow> item \<Rightarrow> node_style" where
  "style_node nodeId connectedIds d =
     (let id = item_id d
      in if \<not> truthy nodeId then
           \<lparr>node_hovered = False, node_connected = False, opacity = 1, scale = 1\<rparr>
         else if Some id = nodeId then
           \<lparr>node_hovered = True, node_connected = False, opacity = 1,
            scale = hoverScale CONFIG\<rparr>
         else if set_has connectedIds id then
           \<lparr>node_hovered = False, node_connected = True, opacity = 1,
            scale = connectedScale CONFIG\<rparr>
         else
           \<lparr>node_hovered = False, node_connected = False,
            opacity = unrelatedOpacity CONFIG, scale = 1\<rparr>)"

definition style_link :: "string option \<Rightarrow> link \<Rightarrow> link_style" where
  "style_link nodeId d =
     (let sid = endpoint_id (source d);
          tid = endpoint_id (target d);
          isHovered = (truthy nodeId \<and> (Some sid = nodeId \<or> Some tid = nodeId));
          isDimmed = (truthy nodeId \<and> Some sid \<noteq> nodeId \<and> Some tid \<noteq> nodeId)
      in \<lparr>hovered = isHovered, dimmed = isDimmed,
          stroke = (if isHovered then lineColorHover CONFIG else lineColor CONFIG)\<rparr>)"

text \<open>
  \<open>setHover\<close> records the hovered id and restyles the node and link elements, which
  carry the nodes and links of \<open>graphData\<close>. It returns the new state and the styles it
  gave, or no styles when it returns early on an empty node list.
\<close>

definition setHover ::
  "string option \<Rightarrow> state \<Rightarrow> state \<times> (node_style list \<times> link_style list) option" where
  "setHover nodeId s =
     (let s' = s\<lparr>hoveredNodeId := nodeId\<rparr>;
          nodes = graphData_nodes s';
          links = graphData_links s'
      in if nodes = [] then (s', None)
         else
           (let connectedIds = connected_ids nodeId links
            in (s', Some (map (style_node nodeId connectedIds) nodes,
                          map (style_link nodeId) links))))"

subsection \<open>Filter change and resize\<close>

definition stop_simulation :: "state \<Rightarrow> state" where
  "stop_simulation s =
     (case sim s of
        None \<Rightarrow> s
      | Some m \<Rightarrow> s\<lparr>sim := Some (m\<lparr>running := False\<rparr>)\<rparr>)"

definition rebuildForFilter :: "collation \<Rightarrow> rect \<Rightarrow> string \<Rightarrow> state \<Rightarrow> error + state" where
  "rebuildForFilter lc r theme s =
     (let s1 = s\<lparr>activeThemeFilter := theme\<rparr>;
          filteredNodes = applyThemeFilter (fullNodes s1) theme;
          filteredNodes = sortNodesByTag lc filteredNodes theme;
          filteredLinks = buildLinks filteredNodes;
          s2 = stop_simulation s1
      in case initGraph r filteredNodes filteredLinks s2 of
           Inl e \<Rightarrow> Inl e
         | Inr s3 \<Rightarrow>
             Inr (s3\<lparr>graphData_nodes := filteredNodes,
                     graphData_links :=
                       (case sim s3 of
                          Some m \<Rightarrow> link_force_links m
                        | None \<Rightarrow> filteredLinks)\<rparr>))"

definition onResize :: "rect \<Rightarrow> state \<Rightarrow> state" where
  "onResize r s =
     (case getDimensions r of
        (width, height) \<Rightarrow>
          (let s1 = s\<lparr>svg_width := width, svg_height := height,
                      svg_viewBox := [0, 0, width, height]\<rparr>
           in case sim s1 of
                None \<Rightarrow> s1
              | Some m \<Rightarrow>
                  s1\<lparr>sim := Some (m\<lparr>center_force_x := width / 2,
                                     center_force_y := height / 2,
                                     center_force_strength := centerStrength CONFIG,
                                     alpha := 3 / 10,
                                     running := True\<rparr>)\<rparr>))"


subsection \<open>The classes of the highlight\<close>

text \<open>Whether some link joins the ids \<open>n\<close> and \<open>x\<close>, in either direction.\<close>

definition shares_edge :: "string \<Rightarrow> link list \<Rightarrow> string \<Rightarrow> bool" where
  "shares_edge n links x =
     list_ex (\<lambda>l. (endpoint_id (source l) = n \<and> endpoint_id (target l) = x) \<or>
                   (endpoint_id (target l) = n \<and> endpoint_id (source l) = x)) links"

definition dimmed_link :: link_style where
  "dimmed_link = \<lparr>hovered = False, dimmed = True, stroke = lineColor CONFIG\<rparr>"

definition touching_link :: link_style where
  "touching_link = \<lparr>hovered = True, dimmed = False, stroke = lineColorHover CONFIG\<rparr>"

text \<open>The four styles a node can get, and the three a link can get.\<close>

definition self_style :: node_style where
  "self_style = \<lparr>node_hovered = True, node_connected = False, opacity = 1, scale = hoverScale CONFIG\<rparr>"

definition connected_style :: node_style where
  "connected_style = \<lparr>node_hovered = False, node_connected = True, opacity = 1, scale = connectedScale CONFIG\<rparr>"

definition other_style :: node_style where
  "other_style = \<lparr>node_hovered = False, node_connected = False, opacity = unrelatedOpacity CONFIG, scale = 1\<rparr>"

definition neutral_style :: node_style where
  "neutral_style = \<lparr>node_hovered = False, node_connected = False, opacity = 1, scale = 1\<rparr>"

definition neutral_link :: link_style where
  "neutral_link = \<lparr>hovered = False, dimmed = False, stroke = lineColor CONFIG\<rparr>"

text \<open>The ids at the two ends of a link.\<close>

definition link_ids :: "link \<Rightarrow> string \<times> string" where
  "link_ids l = (endpoint_id (source l), endpoint_id (target l))"

subsection \<open>The page: state and rendered elements\<close>

text \<open>
  A node element as the script styles it: the two highlight classes, the inline
  opacity, and the scale in the transform of its image. \<open>initGraph\<close> creates a node
  element with neither class, no inline opacity and no transform; \<open>setHover\<close> sets all
  four. An element without inline opacity shows at full opacity and an image without
  transform at scale 1.
\<close>

record node_element =
  has_node_hovered :: bool
  has_node_connected :: bool
  inline_opacity :: "rat option"
  image_scale :: "rat option"

definition created_node :: node_element where
  "created_node =
     \<lparr>has_node_hovered = False, has_node_connected = False,
      inline_opacity = None, image_scale = None\<rparr>"

definition restyled_node :: "node_style \<Rightarrow> node_element" where
  "restyled_node st =
     \<lparr>has_node_hovered = node_hovered st, has_node_connected = node_connected st,
      inline_opacity = Some (opacity st), image_scale = Some (scale st)\<rparr>"

definition shown :: "node_element \<Rightarrow> node_style" where
  "shown e =
     \<lparr>node_hovered = has_node_hovered e, node_connected = has_node_connected e,
      opacity = (case inline_opacity e of None \<Rightarrow> 1 | Some v \<Rightarrow> v),
      scale = (case image_scale e of None \<Rightarrow> 1 | Some v \<Rightarrow> v)\<rparr>"

text \<open>
  A link element as \<open>initGraph\<close> creates it: class \<open>link\<close> only, and the stroke set to
  \<open>CONFIG.lineColor\<close>.
\<close>

definition created_link :: link_style where
  "created_link = \<lparr>hovered = False, dimmed = False, stroke = lineColor CONFIG\<rparr>"

text \<open>
  The page is the state of the script together with the node and link elements of the
  drawing, one element per node and per link of \<open>graphData\<close>, in their order.
\<close>

record page =
  page_state :: state
  node_elements :: "node_element list"
  link_elements :: "link_style list"

text \<open>
  The elements after \<open>initGraph\<close>: it removes the old container and joins new elements
  to the nodes and links it is given.
\<close>

definition page_of :: "state \<Rightarrow> page" where
  "page_of s =
     \<lparr>page_state = s,
      node_elements = map (\<lambda>d. created_node) (graphData_nodes s),
      link_elements = map (\<lambda>l. created_link) (graphData_links s)\<rparr>"

text \<open>
  The variables of the script before \<open>init\<close> runs. The attributes of the drawing
  surface come from the page markup; \<open>initGraph\<close> overwrites them.
\<close>

definition start :: state where
  "start =
     \<lparr>graphData_nodes = [], graphData_links = [], fullNodes = [], sim = None,
      activeThemeFilter = [], hoveredNodeId = None,
      svg_width = 0, svg_height = 0, svg_viewBox = []\<rparr>"

text \<open>
  \<open>init\<close>: load, order the nodes with no tag, draw, and take the links back from the
  link force (which \<open>initGraph\<close> has just created).
\<close>

definition init :: "collation \<Rightarrow> rect \<Rightarrow> fetched \<Rightarrow> error + page" where
  "init lc r f =
     (case loadData f of
        Inl e \<Rightarrow> Inl e
      | Inr (nodes, links) \<Rightarrow>
          (let ordered = sortNodesByTag lc nodes [];
               s = start\<lparr>fullNodes := ordered, graphData_nodes := ordered,
                          graphData_links := links\<rparr>
           in case initGraph r ordered links s of
                Inl e \<Rightarrow> Inl e
              | Inr s1 \<Rightarrow>
                  Inr (page_of (s1\<lparr>graphData_links :=
                                     (case sim s1 of
                                        Some m \<Rightarrow> link_force_links m
                                      | None \<Rightarrow> graphData_links s1)\<rparr>))))"

text \<open>
  What \<open>setHover\<close> does to the page: the new state, and the styles it gave, if any, on
  the elements.
\<close>

fun restyle :: "state \<times> (node_style list \<times> link_style list) option \<Rightarrow> page \<Rightarrow> page" where
  "restyle (s', None) p = p\<lparr>page_state := s'\<rparr>"
| "restyle (s', Some (ns, ls)) p =
     \<lparr>page_state = s', node_elements = map restyled_node ns, link_elements = ls\<rparr>"

text \<open>
  The events whose handlers read or write the hover id, the graph or the highlight: a
  click on a filter button with its \<open>data-theme\<close>, the pointer entering the node
  element at a position or leaving a node element, and a resize of the window. The
  handler of \<open>mouseenter\<close> passes the id of the element's own node; where there is no
  element nothing fires. The handlers of drag, click and
  scroll change none of the hover id, the nodes and links, and the highlight of an
  element.
\<close>

datatype event = FilterClick rect string | MouseEnter nat | MouseLeave | Resize rect

fun handle :: "collation \<Rightarrow> event \<Rightarrow> page \<Rightarrow> error + page" where
  "handle lc (FilterClick r theme) p =
     (case rebuildForFilter lc r theme (page_state p) of
        Inl e \<Rightarrow> Inl e
      | Inr s' \<Rightarrow> Inr (page_of s'))"
| "handle lc (MouseEnter k) p =
     (if k < length (graphData_nodes (page_state p))
      then Inr (restyle (setHover (Some (item_id (graphData_nodes (page_state p) ! k)))
                           (page_state p)) p)
      else Inr p)"
| "handle lc MouseLeave p = Inr (restyle (setHover None (page_state p)) p)"
| "handle lc (Resize r) p = Inr (p\<lparr>page_state := onResize r (page_state p)\<rparr>)"

fun play :: "collation \<Rightarrow> event list \<Rightarrow> page \<Rightarrow> error + page" where
  "play lc [] p = Inr p"
| "play lc (ev # evs) p =
     (case handle lc ev p of Inl e \<Rightarrow> Inl e | Inr p' \<Rightarrow> play lc evs p')"

text \<open>The pages the script can be in: after \<open>init\<close>, and after any handled event.\<close>

inductive reachable :: "collation \<Rightarrow> page \<Rightarrow> bool" for lc where
  booted: "init lc r f = Inr p \<Longrightarrow> reachable lc p"
| handled: "reachable lc p \<Longrightarrow> handle lc ev p = Inr p' \<Longrightarrow> reachable lc p'"

text \<open>Every element looks as with no hover.\<close>

definition idle_look :: "page \<Rightarrow> bool" where
  "idle_look p \<longleftrightarrow>
     list_all (\<lambda>e. shown e = neutral_style) (node_elements p) \<and>
     list_all (\<lambda>l. l = neutral_link) (link_elements p)"

text \<open>
  What holds of every reachable page: each node and link has its element, and the
  elements look idle unless the hovered id is the id of a node of the graph.
\<close>

definition in_step :: "page \<Rightarrow> bool" where
  "in_step p \<longleftrightarrow>
     length (node_elements p) = length (graphData_nodes (page_state p)) \<and>
     length (link_elements p) = length (graphData_links (page_state p)) \<and>
     (idle_look p \<or>
      (\<exists>n. hoveredNodeId (page_state p) = Some n \<and>
           n \<in> item_id ` set (graphData_nodes (page_state p))))"

subsection \<open>Example data\<close>

text \<open>Four nodes as the loader produces them; the last has no name and no tags.\<close>

definition gallery :: "item list" where
  "gallery =
     [\<lparr>item_id = ''p1'', item_image = ''img/p1.jpg'', item_source = None,
       name = ''dusk'', themes = [''city''], moods = [''calm'']\<rparr>,
      \<lparr>item_id = ''p2'', item_image = ''img/p2.jpg'',
       item_source = Some ''https://example.org/p2'',
       name = ''tide'', themes = [''sea''], moods = [''calm'']\<rparr>,
      \<lparr>item_id = ''p3'', item_image = ''img/p3.jpg'', item_source = None,
       name = ''harbour'', themes = [''city'', ''sea''], moods = []\<rparr>,
      \<lparr>item_id = ''p4'', item_image = ''img/p4.jpg'', item_source = None,
       name = [], themes = [], moods = []\<rparr>]"

text \<open>Two data.json entries without tags, one without a name and one named.\<close>

definition unnamed_entry :: raw_entry where
  "unnamed_entry =
     \<lparr>raw_id = ''z'', raw_image = ''img/z.jpg'', raw_source = None, raw_name = None,
      raw_themes = Omitted, raw_moods = Omitted\<rparr>"

definition named_entry :: raw_entry where
  "named_entry =
     \<lparr>raw_id = ''a'', raw_image = ''img/a.jpg'', raw_source = None, raw_name = Some ''m'',
      raw_themes = Omitted, raw_moods = Omitted\<rparr>"

text \<open>An entry whose \<open>themes\<close> field is a string instead of an array.\<close>

definition stray_entry :: raw_entry where
  "stray_entry =
     \<lparr>raw_id = ''q'', raw_image = ''img/q.jpg'', raw_source = None, raw_name = None,
      raw_themes = NonArray True ''city'', raw_moods = TagArray [''calm'']\<rparr>"

text \<open>A page state over given nodes and links, before any simulation exists.\<close>

definition graph_state :: "item list \<Rightarrow> link list \<Rightarrow> state" where
  "graph_state nodes links =
     \<lparr>graphData_nodes = nodes, graphData_links = links, fullNodes = nodes, sim = None,
      activeThemeFilter = [], hoveredNodeId = None,
      svg_width = 1200, svg_height = 800, svg_viewBox = [0, 0, 1200, 800]\<rparr>"

definition viewport :: rect where
  "viewport = \<lparr>rect_width = 1024, rect_height = 600\<rparr>"

text \<open>The page showing the whole gallery, and a page with a node whose id is the empty string.\<close>

definition gallery_state :: state where
  "gallery_state = graph_state gallery (buildLinks gallery)"

definition anonymous_pair :: "item list" where
  "anonymous_pair =
     [\<lparr>item_id = [], item_image = ''img/first.jpg'', item_source = None,
       name = ''first'', themes = [''t''], moods = []\<rparr>,
      \<lparr>item_id = ''b'', item_image = ''img/second.jpg'', item_source = None,
       name = ''second'', themes = [''t''], moods = []\<rparr>]"

definition anonymous_state :: state where
  "anonymous_state = graph_state anonymous_pair (buildLinks anonymous_pair)"

text \<open>
  The items \<open>A\<close>, \<open>B\<close>, \<open>C\<close>, \<open>D\<close> of the scenario, loaded from entries that give an
  id, themes and an empty list of moods, and no name.
\<close>

definition scenario_entry :: "string \<Rightarrow> string list \<Rightarrow> raw_entry" where
  "scenario_entry i ts =
     \<lparr>raw_id = i, raw_image = ''img/'' @ i @ ''.jpg'', raw_source = None, raw_name = None,
      raw_themes = TagArray ts, raw_moods = TagArray []\<rparr>"

definition item_A :: item where
  "item_A = load_entry (scenario_entry ''A'' [''x''])"

definition item_B :: item where
  "item_B = load_entry (scenario_entry ''B'' [''x'', ''y''])"

definition item_C :: item where
  "item_C = load_entry (scenario_entry ''C'' [''y''])"

definition item_D :: item where
  "item_D = load_entry (scenario_entry ''D'' [''z''])"


text \<open>
  The scenario as a loaded document, and the page after the pointer has entered the
  first node and the filter \<open>y\<close> has been chosen.
\<close>

definition scenario_document :: fetched where
  "scenario_document =
     Response True (Document (Some
       [scenario_entry ''A'' [''x''], scenario_entry ''B'' [''x'', ''y''],
        scenario_entry ''C'' [''y''], scenario_entry ''D'' [''z'']]))"

definition stale_page :: page where
  "stale_page =
     projr (play ordinal_compare [MouseEnter 0, FilterClick viewport ''y'']
              (projr (init ordinal_compare viewport scenario_document)))"

subsection \<open>Facts about the link loops\<close>

lemma nodesShareConnection_iff:
  "nodesShareConnection a b =
     (set (themes a) \<inter> set (themes b) \<noteq> {} \<or> set (moods a) \<inter> set (moods b) \<noteq> {})"
  by (auto simp: nodesShareConnection_def array_some_def array_includes_def list_ex_iff)

lemma buildLinks_inner_eq:
  "buildLinks_inner nodes i j links =
     links @ map (\<lambda>k. link_of nodes (i, k))
               (filter (\<lambda>k. nodesShareConnection (nodes ! i) (nodes ! k)) [j..<length nodes])"
proof (induction nodes i j links rule: buildLinks_inner.induct)
  case (1 nodes i j links)
  show ?case
  proof (cases "j < length nodes")
    case True
    then have upt: "[j..<length nodes] = j # [j + 1..<length nodes]"
      by (simp add: upt_conv_Cons)
    show ?thesis
      using True "1.IH" [OF True]
      by (subst buildLinks_inner.simps) (simp add: upt link_of_def)
  next
    case False
    then show ?thesis
      by (subst buildLinks_inner.simps) simp
  qed
qed

lemma buildLinks_outer_eq:
  "buildLinks_outer nodes i links =
     links @ concat (map (\<lambda>a. map (\<lambda>k. link_of nodes (a, k))
                 (filter (\<lambda>k. nodesShareConnection (nodes ! a) (nodes ! k))
                    [a + 1..<length nodes])) [i..<length nodes])"
proof (induction nodes i links rule: buildLinks_outer.induct)
  case (1 nodes i links)
  show ?case
  proof (cases "i < length nodes")
    case True
    then have upt: "[i..<length nodes] = i # [i + 1..<length nodes]"
      by (simp add: upt_conv_Cons)
    show ?thesis
      using True "1.IH" [OF True]
      by (subst buildLinks_outer.simps) (simp add: upt buildLinks_inner_eq)
  next
    case False
    then show ?thesis
      by (subst buildLinks_outer.simps) simp
  qed
qed

lemma map_filter_concat_pairs:
  "map f (filter P (concat (map (\<lambda>i. map (\<lambda>j. (i, j)) (g i)) is))) =
   concat (map (\<lambda>i. map (\<lambda>j. f (i, j)) (filter (\<lambda>j. P (i, j)) (g i))) is)"
  by (induction "is") (simp_all add: filter_map comp_def)

lemma buildLinks_eq:
  "buildLinks nodes =
     map (link_of nodes) (filter (tags_intersect nodes) (index_pairs (length nodes)))"
  unfolding buildLinks_def index_pairs_def buildLinks_outer_eq map_filter_concat_pairs
  by (simp add: tags_intersect_def nodesShareConnection_iff)

lemma set_index_pairs: "set (index_pairs n) = {(i, j). i < j \<and> j < n}"
proof -
  have "(a, b) \<in> set (index_pairs n) \<longleftrightarrow> a < b \<and> b < n" for a b
    unfolding index_pairs_def by (auto intro: bexI [of _ a])
  then show ?thesis by auto
qed

lemma distinct_row: "distinct (map (\<lambda>j. (i, j)) [i + 1..<n])"
  by (simp add: distinct_map inj_on_def)

lemma distinct_index_pairs_from:
  "distinct (concat (map (\<lambda>i. map (\<lambda>j. (i, j)) [i + 1..<n]) [k..<m]))"
proof (induction "m - k" arbitrary: k)
  case 0
  then show ?case by simp
next
  case (Suc d)
  then have km: "k < m" and upt: "[k..<m] = k # [k + 1..<m]"
    by (simp_all add: upt_conv_Cons)
  from Suc have "d = m - (k + 1)" by simp
  from Suc.hyps(1) [OF this]
  show ?case
    by (auto simp: upt distinct_map inj_on_def)
qed

lemma distinct_index_pairs: "distinct (index_pairs n)"
  unfolding index_pairs_def by (rule distinct_index_pairs_from)


lemma distinct_ids_index:
  assumes "distinct (map item_id nodes)" "i < length nodes" "j < length nodes"
    and "item_id (nodes ! i) = item_id (nodes ! j)"
  shows "i = j"
proof -
  have e: "map item_id nodes ! i = map item_id nodes ! j"
    using assms(2-4) by (simp only: nth_map)
  have "i < length (map item_id nodes)" "j < length (map item_id nodes)"
    using assms(2,3) by simp_all
  from nth_eq_iff_index_eq [OF assms(1) this] e show ?thesis
    by blast
qed

lemma link_of_inj:
  assumes d: "distinct (map item_id nodes)"
    and p: "fst p < length nodes" "snd p < length nodes"
    and q: "fst q < length nodes" "snd q < length nodes"
    and e: "link_of nodes p = link_of nodes q"
  shows "p = q"
proof -
  from e have "item_id (nodes ! fst p) = item_id (nodes ! fst q)"
    and "item_id (nodes ! snd p) = item_id (nodes ! snd q)"
    by (simp_all add: link_of_def)
  then have "fst p = fst q" and "snd p = snd q"
    using d p q by (blast intro: distinct_ids_index)+
  then show ?thesis by (simp add: prod_eq_iff)
qed

lemma distinct_ids_links:
  assumes d: "distinct (map item_id nodes)"
  shows "(\<forall>l \<in> set (buildLinks nodes). source l \<noteq> target l)
    \<and> distinct (buildLinks nodes)
    \<and> (\<forall>l \<in> set (buildLinks nodes).
          \<lparr>source = target l, target = source l\<rparr> \<notin> set (buildLinks nodes))"
proof -
  let ?n = "length nodes"
  let ?ps = "filter (tags_intersect nodes) (index_pairs ?n)"
  have rng: "fst p < snd p \<and> snd p < ?n" if "p \<in> set ?ps" for p
    using that by (auto simp: set_index_pairs)
  have ids: "item_id (nodes ! i) \<noteq> item_id (nodes ! j)" if "i < j" "j < ?n" for i j
    using distinct_ids_index [OF d, of i j] that by auto
  have a: "\<forall>l \<in> set (buildLinks nodes). source l \<noteq> target l"
  proof
    fix l assume "l \<in> set (buildLinks nodes)"
    then obtain p where "p \<in> set ?ps" and l: "l = link_of nodes p"
      by (auto simp: buildLinks_eq)
    with rng [of p] ids [of "fst p" "snd p"] show "source l \<noteq> target l"
      by (simp add: link_of_def)
  qed
  have "inj_on (link_of nodes) (set ?ps)"
  proof (rule inj_onI)
    fix p q assume "p \<in> set ?ps" "q \<in> set ?ps" "link_of nodes p = link_of nodes q"
    with rng [of p] rng [of q] show "p = q"
      by (intro link_of_inj [OF d]) auto
  qed
  then have b: "distinct (buildLinks nodes)"
    by (simp add: buildLinks_eq distinct_map distinct_index_pairs)
  have c: "\<forall>l \<in> set (buildLinks nodes).
          \<lparr>source = target l, target = source l\<rparr> \<notin> set (buildLinks nodes)"
  proof (intro ballI notI)
    fix l assume "l \<in> set (buildLinks nodes)"
      and "\<lparr>source = target l, target = source l\<rparr> \<in> set (buildLinks nodes)"
    then obtain p q where p: "p \<in> set ?ps" and l: "l = link_of nodes p"
      and q: "q \<in> set ?ps" and r: "\<lparr>source = target l, target = source l\<rparr> = link_of nodes q"
      by (auto simp: buildLinks_eq)
    from l r have "link_of nodes (snd p, fst p) = link_of nodes q"
      by (simp add: link_of_def)
    with rng [OF p] rng [OF q] have "(snd p, fst p) = q"
      by (intro link_of_inj [OF d]) auto
    with rng [OF p] rng [OF q] show False by auto
  qed
  from a b c show ?thesis by blast
qed

subsection \<open>Facts about sorting\<close>


lemma mset_sort_insert: "mset (sort_insert c x xs) = add_mset x (mset xs)"
  by (induction xs) simp_all

lemma mset_array_sort: "mset (array_sort c xs) = mset xs"
  unfolding array_sort_def by (induction xs) (simp_all add: mset_sort_insert)

lemma set_array_sort: "set (array_sort c xs) = set xs"
  using mset_array_sort [of c xs] by (metis set_mset_mset)

lemma set_sort_insert: "set (sort_insert c x xs) = insert x (set xs)"
  using mset_sort_insert [of c x xs] by (metis set_mset_mset set_mset_add_mset_insert)

lemma array_sort_Cons: "array_sort c (x # xs) = sort_insert c x (array_sort c xs)"
  by (simp add: array_sort_def)

lemma array_sort_Nil: "array_sort c [] = []"
  by (simp add: array_sort_def)

lemma sorted_sort_insert:
  assumes "orders c" "sorted_wrt (\<lambda>a b. c a b \<le> 0) xs"
  shows "sorted_wrt (\<lambda>a b. c a b \<le> 0) (sort_insert c x xs)"
  using assms(2)
proof (induction xs)
  case Nil
  then show ?case by simp
next
  case (Cons y ys)
  show ?case
  proof (cases "c x y \<le> 0")
    case True
    have "c x z \<le> 0" if "z \<in> set ys" for z
    proof -
      from Cons.prems that have "c y z \<le> 0" by simp
      with True assms(1) show ?thesis unfolding orders_def by blast
    qed
    with True Cons.prems show ?thesis by simp
  next
    case False
    then have "c y x \<le> 0" using assms(1) unfolding orders_def by blast
    with False Cons show ?thesis by (auto simp: set_sort_insert)
  qed
qed

lemma sorted_array_sort:
  assumes "orders c"
  shows "sorted_wrt (\<lambda>a b. c a b \<le> 0) (array_sort c xs)"
  by (induction xs) (simp_all add: array_sort_Nil array_sort_Cons sorted_sort_insert [OF assms])

lemma array_sort_sorted:
  assumes "sorted_wrt (\<lambda>a b. c a b \<le> 0) xs"
  shows "array_sort c xs = xs"
  using assms
proof (induction xs)
  case Nil
  then show ?case by (simp add: array_sort_Nil)
next
  case (Cons x xs)
  then have "array_sort c (x # xs) = sort_insert c x xs"
    by (simp add: array_sort_Cons)
  also have "\<dots> = x # xs"
    using Cons.prems by (cases xs) simp_all
  finally show ?case .
qed

lemma orders_compare_name:
  assumes "consistent lc" shows "orders (compare_name lc)"
proof -
  from assms have anti: "\<And>a b. (lc a b < 0) = (0 < lc b a)"
    and trans: "\<And>a b d. lc a b \<le> 0 \<Longrightarrow> lc b d \<le> 0 \<Longrightarrow> lc a d \<le> 0"
    unfolding consistent_def by blast+
  have tot: "lc a b \<le> 0 \<or> lc b a \<le> 0" for a b
    using anti [of b a] by linarith
  show ?thesis
    unfolding orders_def compare_name_def using tot trans by blast
qed

lemma compare_tag_le:
  "compare_tag lc tag a b \<le> 0 \<longleftrightarrow>
     (tag \<in> set (themes a) \<and> tag \<notin> set (themes b))
     \<or> ((tag \<in> set (themes a)) = (tag \<in> set (themes b)) \<and> lc (order_key a) (order_key b) \<le> 0)"
  by (simp add: compare_tag_def array_includes_def order_key_def Let_def)

lemma orders_compare_tag:
  assumes "consistent lc" shows "orders (compare_tag lc tag)"
proof -
  from assms have anti: "\<And>a b. (lc a b < 0) = (0 < lc b a)"
    and trans: "\<And>a b d. lc a b \<le> 0 \<Longrightarrow> lc b d \<le> 0 \<Longrightarrow> lc a d \<le> 0"
    unfolding consistent_def by blast+
  have tot: "lc a b \<le> 0 \<or> lc b a \<le> 0" for a b
    using anti [of b a] by linarith
  have "compare_tag lc tag a b \<le> 0 \<or> compare_tag lc tag b a \<le> 0" for a b
    using tot [of "order_key a" "order_key b"] unfolding compare_tag_le by blast
  moreover have "compare_tag lc tag a d \<le> 0"
    if "compare_tag lc tag a b \<le> 0" "compare_tag lc tag b d \<le> 0" for a b d
    using that trans [of "order_key a" "order_key b" "order_key d"]
    unfolding compare_tag_le by blast
  ultimately show ?thesis
    unfolding orders_def by blast
qed

lemma ordinal_compare_anti: "(ordinal_compare a b < 0) = (0 < ordinal_compare b a)"
proof (induction a b rule: ordinal_compare.induct)
  case (4 x xs y ys)
  consider "(of_char x :: nat) < of_char y" | "(of_char y :: nat) < of_char x"
    | "(of_char x :: nat) = of_char y" by linarith
  then show ?case
  proof cases
    case 1 then show ?thesis by simp
  next
    case 2 then show ?thesis by simp
  next
    case 3 then show ?thesis using 4 by simp
  qed
qed simp_all

lemma ordinal_compare_trans:
  "ordinal_compare a b \<le> 0 \<Longrightarrow> ordinal_compare b d \<le> 0 \<Longrightarrow> ordinal_compare a d \<le> 0"
proof (induction a b arbitrary: d rule: ordinal_compare.induct)
  case 1
  then show ?case by simp
next
  case (2 y ys)
  then show ?case by (cases d) simp_all
next
  case (3 x xs)
  then show ?case by simp
next
  case (4 x xs y ys)
  show ?case
  proof (cases d)
    case Nil
    with "4.prems" show ?thesis by simp
  next
    case (Cons z zs)
    from "4.prems"(1) have xy: "(of_char x :: nat) \<le> of_char y"
      by (simp split: if_splits)
    from "4.prems"(2) Cons have yz: "(of_char y :: nat) \<le> of_char z"
      by (simp split: if_splits)
    show ?thesis
    proof (cases "(of_char x :: nat) < of_char z")
      case True
      with Cons show ?thesis by simp
    next
      case False
      with xy yz have e: "(of_char x :: nat) = of_char y" "(of_char y :: nat) = of_char z"
        by linarith+
      with "4.prems" Cons have "ordinal_compare xs ys \<le> 0" "ordinal_compare ys zs \<le> 0"
        by simp_all
      with "4.IH" [of zs] e have "ordinal_compare xs zs \<le> 0" by simp
      with e Cons show ?thesis by simp
    qed
  qed
qed

lemma consistent_ordinal_compare: "consistent ordinal_compare"
  unfolding consistent_def
proof (intro conjI allI impI)
  fix a b show "(ordinal_compare a b < 0) = (0 < ordinal_compare b a)"
    by (rule ordinal_compare_anti)
next
  fix a b c assume "ordinal_compare a b \<le> 0 \<and> ordinal_compare b c \<le> 0"
  then show "ordinal_compare a c \<le> 0"
    using ordinal_compare_trans [of a b c] by simp
qed

lemma orders_sort_callback:
  "consistent lc \<Longrightarrow> orders (if tag = [] then compare_name lc else compare_tag lc tag)"
  by (simp add: orders_compare_name orders_compare_tag)

lemma sortNodesByTag_eq:
  "sortNodesByTag lc xs tag = array_sort (if tag = [] then compare_name lc else compare_tag lc tag) xs"
  by (simp add: sortNodesByTag_def)

lemma sorted_sortNodesByTag:
  assumes "consistent lc"
  shows "sorted_wrt (\<lambda>a b. (if tag = [] then compare_name lc else compare_tag lc tag) a b \<le> 0)
           (sortNodesByTag lc xs tag)"
  unfolding sortNodesByTag_eq
  by (rule sorted_array_sort [OF orders_sort_callback [OF assms]])

lemma mset_sortNodesByTag: "mset (sortNodesByTag lc xs tag) = mset xs"
  by (simp add: sortNodesByTag_eq mset_array_sort)

lemma sortNodesByTag_no_tag_sorted:
  assumes "consistent lc"
  shows "sorted_wrt (\<lambda>a b. lc (order_key a) (order_key b) \<le> 0) (sortNodesByTag lc xs [])"
  using sorted_sortNodesByTag [OF assms, of "[]" xs]
  by (simp add: compare_name_def order_key_def)

lemma sortNodesByTag_tag_sorted:
  assumes "consistent lc" "tag \<noteq> []"
  shows "sorted_wrt (\<lambda>a b. compare_tag lc tag a b \<le> 0) (sortNodesByTag lc xs tag)"
  using sorted_sortNodesByTag [OF assms(1), of tag xs] assms(2) by simp

lemma sortNodesByTag_store_result:
  assumes "nodes < length h"
  shows "sortNodesByTag_store lc h nodes tag =
           (length h, h @ [sortNodesByTag lc (h ! nodes) tag])"
  using assms
  by (simp add: sortNodesByTag_store_def spread_copy_def sort_in_place_def
      sortNodesByTag_def nth_append)

subsection \<open>Facts about binding links and rebuilding\<close>

lemma find_Some_member: "List.find P xs = Some d \<Longrightarrow> P d \<and> d \<in> set xs"
  by (induction xs) (auto split: if_splits)

lemma find_node_present:
  assumes "s \<in> item_id ` set nodes"
  shows "\<exists>d. find_node nodes s = Inr d \<and> item_id d = s \<and> d \<in> set nodes"
proof -
  from assms have "\<exists>d \<in> set (rev nodes). item_id d = s" by auto
  then obtain d where f: "List.find (\<lambda>d. item_id d = s) (rev nodes) = Some d"
    by (cases "List.find (\<lambda>d. item_id d = s) (rev nodes)") (auto simp: find_None_iff)
  from find_Some_member [OF this] have "item_id d = s" "d \<in> set nodes"
    by simp_all
  with f show ?thesis by (simp add: find_node_def)
qed

lemma resolve_endpoint_present:
  assumes "endpoint_id e \<in> item_id ` set nodes"
  shows "\<exists>e'. resolve_endpoint nodes e = Inr e' \<and> endpoint_id e' = endpoint_id e"
proof (cases e)
  case (EId s)
  with assms find_node_present [of s nodes] show ?thesis by auto
next
  case (ENode d)
  then show ?thesis by simp
qed

lemma forceLink_initialize_present:
  assumes "\<forall>l \<in> set links. endpoint_id (source l) \<in> item_id ` set nodes
                          \<and> endpoint_id (target l) \<in> item_id ` set nodes"
  shows "\<exists>ls. forceLink_initialize nodes links = Inr ls \<and> map link_ids ls = map link_ids links"
  using assms
proof (induction links)
  case Nil
  then show ?case by simp
next
  case (Cons l links)
  then obtain ls where ls: "forceLink_initialize nodes links = Inr ls"
      "map link_ids ls = map link_ids links"
    by auto
  from Cons.prems obtain a where a: "resolve_endpoint nodes (source l) = Inr a"
      "endpoint_id a = endpoint_id (source l)"
    using resolve_endpoint_present [of "source l" nodes] by auto
  from Cons.prems obtain b where b: "resolve_endpoint nodes (target l) = Inr b"
      "endpoint_id b = endpoint_id (target l)"
    using resolve_endpoint_present [of "target l" nodes] by auto
  have "link_ids \<lparr>source = a, target = b\<rparr> = link_ids l"
    using a(2) b(2) by (simp add: link_ids_def)
  with ls a(1) b(1) show ?case by simp
qed

lemma buildLinks_ids_present:
  assumes "l \<in> set (buildLinks nodes)"
  shows "endpoint_id (source l) \<in> item_id ` set nodes \<and> endpoint_id (target l) \<in> item_id ` set nodes"
proof -
  from assms obtain p where "p \<in> set (index_pairs (length nodes))" and l: "l = link_of nodes p"
    by (auto simp: buildLinks_eq)
  then have "fst p < length nodes" "snd p < length nodes"
    by (auto simp: set_index_pairs)
  then have "nodes ! fst p \<in> set nodes" "nodes ! snd p \<in> set nodes"
    by simp_all
  with l show ?thesis by (simp add: link_of_def)
qed

lemma initGraph_buildLinks:
  "\<exists>ls. forceLink_initialize nodes (buildLinks nodes) = Inr ls
     \<and> map link_ids ls = map link_ids (buildLinks nodes)
     \<and> initGraph r nodes (buildLinks nodes) s =
         Inr (s\<lparr>svg_width := fst (getDimensions r), svg_height := snd (getDimensions r),
                svg_viewBox := [0, 0, fst (getDimensions r), snd (getDimensions r)],
                sim := Some
                  \<lparr>sim_nodes = nodes,
                   link_force_links = ls,
                   link_force_distance = linkDistance CONFIG,
                   charge_force_strength = chargeStrength CONFIG,
                   center_force_x = fst (getDimensions r) / 2,
                   center_force_y = snd (getDimensions r) / 2,
                   center_force_strength = centerStrength CONFIG,
                   collision_radius = nodeRadius CONFIG * (22 / 10),
                   alpha = 1, alphaTarget = 0, running = True\<rparr>\<rparr>)"
proof -
  from forceLink_initialize_present [of "buildLinks nodes" nodes] buildLinks_ids_present [of _ nodes]
  obtain ls where ls: "forceLink_initialize nodes (buildLinks nodes) = Inr ls"
    "map link_ids ls = map link_ids (buildLinks nodes)"
    by blast
  then show ?thesis
    by (simp add: initGraph_def split: prod.splits)
qed

lemma rebuildForFilter_result:
  "\<exists>s' ls. rebuildForFilter lc r T s = Inr s'
     \<and> graphData_nodes s' = sortNodesByTag lc (applyThemeFilter (fullNodes s) T) T
     \<and> graphData_links s' = ls
     \<and> forceLink_initialize (graphData_nodes s') (buildLinks (graphData_nodes s')) = Inr ls
     \<and> map link_ids ls = map link_ids (buildLinks (graphData_nodes s'))
     \<and> fullNodes s' = fullNodes s \<and> activeThemeFilter s' = T
     \<and> hoveredNodeId s' = hoveredNodeId s"
proof -
  let ?ns = "sortNodesByTag lc (applyThemeFilter (fullNodes s) T) T"
  let ?s2 = "stop_simulation (s\<lparr>activeThemeFilter := T\<rparr>)"
  from initGraph_buildLinks [of ?ns r ?s2]
  obtain ls s3 where ls: "forceLink_initialize ?ns (buildLinks ?ns) = Inr ls"
      "map link_ids ls = map link_ids (buildLinks ?ns)"
      and s3: "initGraph r ?ns (buildLinks ?ns) ?s2 = Inr s3"
      and sim: "sim s3 = Some
                  \<lparr>sim_nodes = ?ns,
                   link_force_links = ls,
                   link_force_distance = linkDistance CONFIG,
                   charge_force_strength = chargeStrength CONFIG,
                   center_force_x = fst (getDimensions r) / 2,
                   center_force_y = snd (getDimensions r) / 2,
                   center_force_strength = centerStrength CONFIG,
                   collision_radius = nodeRadius CONFIG * (22 / 10),
                   alpha = 1, alphaTarget = 0, running = True\<rparr>"
      and rest: "fullNodes s3 = fullNodes ?s2" "activeThemeFilter s3 = activeThemeFilter ?s2"
        "hoveredNodeId s3 = hoveredNodeId ?s2"
    by fastforce
  have s2: "fullNodes ?s2 = fullNodes s" "activeThemeFilter ?s2 = T"
     "hoveredNodeId ?s2 = hoveredNodeId s"
    by (simp_all add: stop_simulation_def split: option.splits)
  show ?thesis
    using ls s3 sim rest s2
    by (simp add: rebuildForFilter_def Let_def)
qed

lemma applyThemeFilter_moods:
  "applyThemeFilter (map (moods_update g) xs) T = map (moods_update g) (applyThemeFilter xs T)"
  by (simp add: applyThemeFilter_def filter_map comp_def)

lemma scenario_links:
  "buildLinks [item_A, item_B, item_C, item_D] =
     [\<lparr>source = EId ''A'', target = EId ''B''\<rparr>, \<lparr>source = EId ''B'', target = EId ''C''\<rparr>]"
  by code_simp

lemma scenario_filtered_links:
  "forceLink_initialize [item_B, item_C] (buildLinks [item_B, item_C]) =
     Inr [\<lparr>source = ENode item_B, target = ENode item_C\<rparr>]"
  by code_simp

lemma scenario_selected:
  "applyThemeFilter [item_A, item_B, item_C, item_D] ''y'' = [item_B, item_C]"
  by code_simp

lemma scenario_keys: "order_key item_B = ''x, y''" "order_key item_C = ''y''"
  "array_includes (themes item_B) ''y''" "array_includes (themes item_C) ''y''"
  by code_simp+

lemma scenario_ordered:
  assumes "lc ''x, y'' ''y'' \<le> 0"
  shows "sortNodesByTag lc [item_B, item_C] ''y'' = [item_B, item_C]"
  using assms scenario_keys
  by (simp add: sortNodesByTag_def array_sort_def compare_tag_def order_key_def)

subsection \<open>Facts about loading\<close>

lemma load_entry_unnamed:
  assumes "raw_name d = None \<or> raw_name d = Some []"
    and "concat_arg (raw_themes d) = []" and "concat_arg (raw_moods d) = []"
  shows "name (load_entry d) = []" and "order_key (load_entry d) = raw_id d"
  using assms
  by (auto simp: load_entry_def derived_name_def or_else_def order_key_def)

subsection \<open>Facts about hovering\<close>

lemma set_set_add: "set (set_add ids x) = insert x (set ids)"
  by (auto simp: set_add_def)

lemma set_connect_step:
  "set (connect_step (Some n) ids l) =
     set ids \<union> {x. (endpoint_id (source l) = n \<and> endpoint_id (target l) = x) \<or>
                    (endpoint_id (target l) = n \<and> endpoint_id (source l) = x)}"
  by (auto simp: connect_step_def Let_def set_set_add)

lemma set_foldl_connect_step:
  "set (foldl (connect_step (Some n)) ids links) = set ids \<union> {x. shares_edge n links x}"
proof (induction links arbitrary: ids)
  case Nil
  then show ?case by (simp add: shares_edge_def)
next
  case (Cons l links)
  have "{x. shares_edge n (l # links) x} =
      {x. (endpoint_id (source l) = n \<and> endpoint_id (target l) = x) \<or>
          (endpoint_id (target l) = n \<and> endpoint_id (source l) = x)} \<union> {x. shares_edge n links x}"
    by (auto simp: shares_edge_def)
  with Cons [of "connect_step (Some n) ids l"] show ?case
    by (simp add: set_connect_step Un_assoc)
qed

lemma set_connected_ids:
  "n \<noteq> [] \<Longrightarrow> set (connected_ids (Some n) links) = {x. shares_edge n links x}"
  by (simp add: connected_ids_def set_foldl_connect_step)

lemma distinct_foldl_connect_step:
  "distinct ids \<Longrightarrow> distinct (foldl (connect_step nodeId) ids links)"
  by (induction links arbitrary: ids) (simp_all add: connect_step_def set_add_def Let_def)

lemma distinct_connected_ids: "distinct (connected_ids nodeId links)"
  by (simp add: connected_ids_def distinct_foldl_connect_step)

lemma style_node_hover:
  assumes "n \<noteq> []"
  shows "style_node (Some n) ids d =
           (if item_id d = n then self_style
            else if item_id d \<in> set ids then connected_style
            else other_style)"
  using assms
  by (simp add: style_node_def Let_def set_has_def self_style_def connected_style_def other_style_def)

lemma style_node_idle: "style_node None ids d = neutral_style"
  by (simp add: style_node_def neutral_style_def)

subsection \<open>Facts about the page\<close>

lemma shown_created: "shown created_node = neutral_style"
  by (simp add: shown_def created_node_def neutral_style_def)

lemma shown_restyled: "shown (restyled_node st) = st"
  by (simp add: shown_def restyled_node_def)

lemma created_link_neutral: "created_link = neutral_link"
  by (simp add: created_link_def neutral_link_def)

lemma page_of_facts:
  "page_state (page_of s) = s"
  "length (node_elements (page_of s)) = length (graphData_nodes s)"
  "length (link_elements (page_of s)) = length (graphData_links s)"
  "idle_look (page_of s)"
  by (simp_all add: page_of_def idle_look_def list_all_iff shown_created created_link_neutral)

lemma setHover_eq:
  "setHover nodeId s =
     (s\<lparr>hoveredNodeId := nodeId\<rparr>,
      if graphData_nodes s = [] then None
      else Some (map (style_node nodeId (connected_ids nodeId (graphData_links s))) (graphData_nodes s),
                 map (style_link nodeId) (graphData_links s)))"
  by (simp add: setHover_def Let_def)

lemma style_link_idle: "style_link None l = neutral_link"
  by (simp add: style_link_def neutral_link_def Let_def)

lemma in_step_page_of: "in_step (page_of s)"
  by (simp add: in_step_def page_of_facts)

lemma in_step_init: "init lc r f = Inr p \<Longrightarrow> in_step p"
  by (auto simp: init_def Let_def in_step_page_of split: sum.splits prod.splits)

lemma in_step_enter:
  assumes "in_step p" "k < length (graphData_nodes (page_state p))"
  shows "in_step (restyle (setHover (Some (item_id (graphData_nodes (page_state p) ! k))) (page_state p)) p)"
proof -
  from assms(2) have ne: "graphData_nodes (page_state p) \<noteq> []" by auto
  from assms(2) have "item_id (graphData_nodes (page_state p) ! k)
      \<in> item_id ` set (graphData_nodes (page_state p))"
    by simp
  then show ?thesis
    using ne by (simp add: setHover_eq in_step_def)
qed

lemma in_step_leave:
  assumes "in_step p"
  shows "in_step (restyle (setHover None (page_state p)) p)"
proof (cases "graphData_nodes (page_state p) = []")
  case True
  with assms have "idle_look p" by (auto simp: in_step_def)
  with assms True show ?thesis
    by (simp add: setHover_eq in_step_def idle_look_def)
next
  case False
  then show ?thesis
    by (simp add: setHover_eq in_step_def idle_look_def list_all_iff
        shown_restyled style_node_idle style_link_idle)
qed

lemma in_step_resize:
  assumes "in_step p"
  shows "in_step (p\<lparr>page_state := onResize r (page_state p)\<rparr>)"
proof -
  have "graphData_nodes (onResize r (page_state p)) = graphData_nodes (page_state p)"
    "graphData_links (onResize r (page_state p)) = graphData_links (page_state p)"
    "hoveredNodeId (onResize r (page_state p)) = hoveredNodeId (page_state p)"
    by (simp_all add: onResize_def Let_def split: prod.splits option.splits)
  with assms show ?thesis
    by (simp add: in_step_def idle_look_def)
qed

lemma in_step_handle:
  assumes "in_step p" "handle lc ev p = Inr p'"
  shows "in_step p'"
proof (cases ev)
  case (FilterClick r theme)
  with assms(2) show ?thesis
    by (auto simp: in_step_page_of split: sum.splits)
next
  case (MouseEnter k)
  with assms in_step_enter [of p k] show ?thesis
    by (auto split: if_splits)
next
  case MouseLeave
  with assms in_step_leave [of p] show ?thesis by auto
next
  case (Resize r)
  with assms in_step_resize [of p r] show ?thesis by auto
qed

lemma reachable_in_step: "reachable lc p \<Longrightarrow> in_step p"
  by (induction rule: reachable.induct) (auto intro: in_step_init in_step_handle)

lemma reachable_play:
  "reachable lc p \<Longrightarrow> play lc evs p = Inr p' \<Longrightarrow> reachable lc p'"
proof (induction evs arbitrary: p)
  case Nil
  then show ?case by simp
next
  case (Cons ev evs)
  then show ?case
    by (auto split: sum.splits intro: reachable.handled)
qed

subsection \<open>Claims about the links\<close>

text \<open>
  C1. \<open>buildLinks\<close> returns one link per pair of positions \<open>i < j\<close> whose themes
  intersect or whose moods intersect, with source the id at \<open>i\<close> and target the id at
  \<open>j\<close>, in the order of the pairs, and nothing else; every such pair of positions
  occurs once in the enumeration. With the ids of the items pairwise distinct, as the
  data model has them, no link joins an id to itself, no link occurs twice, and no
  link occurs in both directions.
\<close>

theorem buildLinks_pairs:
  "buildLinks nodes =
     map (link_of nodes) (filter (tags_intersect nodes) (index_pairs (length nodes)))
   \<and> distinct (index_pairs (length nodes))
   \<and> set (index_pairs (length nodes)) = {(i, j). i < j \<and> j < length nodes}
   \<and> (distinct (map item_id nodes) \<longrightarrow>
        (\<forall>l \<in> set (buildLinks nodes). source l \<noteq> target l)
        \<and> distinct (buildLinks nodes)
        \<and> (\<forall>l \<in> set (buildLinks nodes).
              \<lparr>source = target l, target = source l\<rparr> \<notin> set (buildLinks nodes)))"
  using buildLinks_eq [of nodes] distinct_index_pairs [of "length nodes"]
    set_index_pairs [of "length nodes"] distinct_ids_links [of nodes]
  by blast

theorem buildLinks_pairs_witness:
  "distinct (map item_id gallery) \<and>
   buildLinks gallery =
     [\<lparr>source = EId ''p1'', target = EId ''p2''\<rparr>,
      \<lparr>source = EId ''p1'', target = EId ''p3''\<rparr>,
      \<lparr>source = EId ''p2'', target = EId ''p3''\<rparr>] \<and>
   list_all (\<lambda>l. source l \<noteq> target l) (buildLinks gallery) \<and>
   distinct (buildLinks gallery)"
proof -
  have d: "distinct (map item_id gallery)"
    by (simp add: gallery_def)
  have e: "buildLinks gallery =
     [\<lparr>source = EId ''p1'', target = EId ''p2''\<rparr>,
      \<lparr>source = EId ''p1'', target = EId ''p3''\<rparr>,
      \<lparr>source = EId ''p2'', target = EId ''p3''\<rparr>]"
    by code_simp
  from buildLinks_pairs [of gallery] d
  have "list_all (\<lambda>l. source l \<noteq> target l) (buildLinks gallery)
      \<and> distinct (buildLinks gallery)"
    unfolding list_all_iff by blast
  with d e show ?thesis by blast
qed

subsection \<open>Claims about the ordering\<close>

text \<open>
  C8. With a consistent collation, ordering an already ordered list again, with the
  same tag, gives the same list.
\<close>

theorem sortNodesByTag_idempotent:
  assumes "consistent lc"
  shows "sortNodesByTag lc (sortNodesByTag lc xs tag) tag = sortNodesByTag lc xs tag"
proof -
  let ?c = "if tag = [] then compare_name lc else compare_tag lc tag"
  have "sorted_wrt (\<lambda>a b. ?c a b \<le> 0) (sortNodesByTag lc xs tag)"
    by (rule sorted_sortNodesByTag [OF assms])
  then have "array_sort ?c (sortNodesByTag lc xs tag) = sortNodesByTag lc xs tag"
    by (rule array_sort_sorted)
  then show ?thesis
    by (simp only: sortNodesByTag_eq)
qed

theorem sortNodesByTag_idempotent_witness:
  "consistent ordinal_compare \<and>
   sortNodesByTag ordinal_compare (sortNodesByTag ordinal_compare gallery ''sea'') ''sea''
     = sortNodesByTag ordinal_compare gallery ''sea'' \<and>
   map item_id (sortNodesByTag ordinal_compare gallery ''sea'') = [''p3'', ''p2'', ''p1'', ''p4'']"
proof -
  have "map item_id (sortNodesByTag ordinal_compare gallery ''sea'')
          = [''p3'', ''p2'', ''p1'', ''p4'']"
    by code_simp
  with sortNodesByTag_idempotent [OF consistent_ordinal_compare, of gallery "''sea''"]
    consistent_ordinal_compare
  show ?thesis by simp
qed

text \<open>
  C4, as the claim states it, fails: with no active tag the result need not ascend by
  display name. A node with an empty name is compared by its id, so the node named
  \<open>m\<close> comes before the unnamed node with id \<open>z\<close>, although the empty name is
  before \<open>m\<close>.
\<close>

theorem sortNodesByTag_name_order_counterexample:
  "sortNodesByTag ordinal_compare [load_entry unnamed_entry, load_entry named_entry] []
     = [load_entry named_entry, load_entry unnamed_entry] \<and>
   name (load_entry named_entry) = ''m'' \<and>
   name (load_entry unnamed_entry) = [] \<and>
   0 < ordinal_compare ''m'' []"
proof -
  have "sortNodesByTag ordinal_compare [load_entry unnamed_entry, load_entry named_entry] []
     = [load_entry named_entry, load_entry unnamed_entry]"
    by code_simp
  moreover have "name (load_entry named_entry) = ''m''"
    by (simp add: named_entry_def load_entry_def or_else_def)
  moreover have "name (load_entry unnamed_entry) = []"
    by (simp add: unnamed_entry_def load_entry_def derived_name_def)
  moreover have "0 < ordinal_compare ''m'' []"
    by simp
  ultimately show ?thesis by (intro conjI)
qed

text \<open>
  C4, amended. \<open>sortNodesByTag\<close> allocates a new array and leaves every array that
  existed before the call, its input among them, as it was. The new array holds the
  input's elements, each as often as the input. With a consistent collation and no
  active tag it ascends by the sort key, which is the display name when that is not
  empty and the id otherwise. With an active tag no node without the tag stands before
  a node with it, and any two nodes that both have the tag, or both lack it, stand in
  ascending order of the sort key.
\<close>

theorem sortNodesByTag_store_ordered:
  assumes "consistent lc" and "nodes < length h"
  shows "case sortNodesByTag_store lc h nodes tag of
           (list, h') \<Rightarrow>
             list \<noteq> nodes \<and> list < length h' \<and>
             (\<forall>a < length h. h' ! a = h ! a) \<and>
             h' ! list = sortNodesByTag lc (h ! nodes) tag \<and>
             mset (h' ! list) = mset (h ! nodes) \<and>
             (tag = [] \<longrightarrow>
                sorted_wrt (\<lambda>a b. lc (order_key a) (order_key b) \<le> 0) (h' ! list)) \<and>
             (tag \<noteq> [] \<longrightarrow>
                (\<forall>i j. i < j \<and> j < length (h' ! list) \<longrightarrow>
                   (tag \<in> set (themes (h' ! list ! j)) \<longrightarrow> tag \<in> set (themes (h' ! list ! i))) \<and>
                   ((tag \<in> set (themes (h' ! list ! i))) = (tag \<in> set (themes (h' ! list ! j))) \<longrightarrow>
                      lc (order_key (h' ! list ! i)) (order_key (h' ! list ! j)) \<le> 0)))"
proof -
  let ?r = "sortNodesByTag lc (h ! nodes) tag"
  have a: "tag = [] \<longrightarrow> sorted_wrt (\<lambda>a b. lc (order_key a) (order_key b) \<le> 0) ?r"
    using sortNodesByTag_no_tag_sorted [OF assms(1)] by blast
  have b: "tag \<noteq> [] \<longrightarrow>
      (\<forall>i j. i < j \<and> j < length ?r \<longrightarrow>
         (tag \<in> set (themes (?r ! j)) \<longrightarrow> tag \<in> set (themes (?r ! i))) \<and>
         ((tag \<in> set (themes (?r ! i))) = (tag \<in> set (themes (?r ! j))) \<longrightarrow>
            lc (order_key (?r ! i)) (order_key (?r ! j)) \<le> 0))"
  proof (intro impI allI)
    fix i j assume t: "tag \<noteq> []" and ij: "i < j \<and> j < length ?r"
    from sortNodesByTag_tag_sorted [OF assms(1) t, of "h ! nodes"] ij
    have "compare_tag lc tag (?r ! i) (?r ! j) \<le> 0"
      by (simp add: sorted_wrt_iff_nth_less)
    then show "(tag \<in> set (themes (?r ! j)) \<longrightarrow> tag \<in> set (themes (?r ! i))) \<and>
         ((tag \<in> set (themes (?r ! i))) = (tag \<in> set (themes (?r ! j))) \<longrightarrow>
            lc (order_key (?r ! i)) (order_key (?r ! j)) \<le> 0)"
      unfolding compare_tag_le by blast
  qed
  have c: "(h @ [?r]) ! length h = ?r" by simp
  have d: "\<forall>a < length h. (h @ [?r]) ! a = h ! a" by (simp add: nth_append)
  show ?thesis
    unfolding sortNodesByTag_store_result [OF assms(2)] prod.case c
    using a b d assms(2) mset_sortNodesByTag [of lc "h ! nodes" tag]
    by simp
qed

theorem sortNodesByTag_store_ordered_witness:
  "consistent ordinal_compare \<and> (0::nat) < length [gallery] \<and>
   (case sortNodesByTag_store ordinal_compare [gallery] 0 ''sea'' of
      (list, h') \<Rightarrow>
        list = 1 \<and> h' ! 0 = gallery \<and>
        mset (h' ! list) = mset gallery \<and>
        map item_id (h' ! list) = [''p3'', ''p2'', ''p1'', ''p4''])"
proof -
  have n: "(0::nat) < length [gallery]" by simp
  have v: "sortNodesByTag_store ordinal_compare [gallery] 0 ''sea'' =
             (1, [gallery, sortNodesByTag ordinal_compare gallery ''sea''])"
    by (simp add: sortNodesByTag_store_result)
  have k: "map item_id (sortNodesByTag ordinal_compare gallery ''sea'')
             = [''p3'', ''p2'', ''p1'', ''p4'']"
    by code_simp
  from sortNodesByTag_store_ordered [OF consistent_ordinal_compare n, of "''sea''"]
  have "mset ([gallery, sortNodesByTag ordinal_compare gallery ''sea''] ! 1) = mset gallery"
    unfolding v by simp
  with consistent_ordinal_compare n k show ?thesis
    unfolding v by simp
qed

text \<open>
  C10. The comparison key of a node is its id when its name is empty and its name
  otherwise, in both callbacks (with a tag, when the tag does not already decide). So
  in the result of \<open>sortNodesByTag\<close> with a consistent collation, two nodes with empty
  names that are not separated by the tag stand in ascending order of their ids, and two
  such nodes with names in ascending order of their names. The loader gives the empty
  name to an entry without a name of its own whose themes and moods contribute
  nothing.
\<close>

theorem order_key_falls_back_to_id:
  assumes "consistent lc"
  shows "compare_name lc a b =
           lc (if name a = [] then item_id a else name a)
              (if name b = [] then item_id b else name b) \<and>
         ((tag \<in> set (themes a)) = (tag \<in> set (themes b)) \<longrightarrow>
            compare_tag lc tag a b =
              lc (if name a = [] then item_id a else name a)
                 (if name b = [] then item_id b else name b)) \<and>
         (\<forall>i j. i < j \<and> j < length (sortNodesByTag lc xs tag) \<and>
            (tag = [] \<or> (tag \<in> set (themes (sortNodesByTag lc xs tag ! i)))
                           = (tag \<in> set (themes (sortNodesByTag lc xs tag ! j)))) \<longrightarrow>
            (name (sortNodesByTag lc xs tag ! i) = [] \<and> name (sortNodesByTag lc xs tag ! j) = [] \<longrightarrow>
               lc (item_id (sortNodesByTag lc xs tag ! i)) (item_id (sortNodesByTag lc xs tag ! j)) \<le> 0) \<and>
            (name (sortNodesByTag lc xs tag ! i) \<noteq> [] \<and> name (sortNodesByTag lc xs tag ! j) \<noteq> [] \<longrightarrow>
               lc (name (sortNodesByTag lc xs tag ! i)) (name (sortNodesByTag lc xs tag ! j)) \<le> 0)) \<and>
         ((raw_name d = None \<or> raw_name d = Some []) \<and>
            concat_arg (raw_themes d) = [] \<and> concat_arg (raw_moods d) = [] \<longrightarrow>
            name (load_entry d) = [] \<and> order_key (load_entry d) = raw_id d)"
proof -
  let ?r = "sortNodesByTag lc xs tag"
  let ?k = "\<lambda>a. if name a = [] then item_id a else name a"
  have key: "order_key a = ?k a" for a
    by (simp add: order_key_def or_else_def)
  have a: "compare_name lc a b = lc (?k a) (?k b)"
    by (simp add: compare_name_def or_else_def)
  have b: "(tag \<in> set (themes a)) = (tag \<in> set (themes b)) \<longrightarrow>
            compare_tag lc tag a b = lc (?k a) (?k b)"
    by (simp add: compare_tag_def array_includes_def or_else_def Let_def)
  have le: "lc (order_key (?r ! i)) (order_key (?r ! j)) \<le> 0"
    if ij: "i < j" "j < length ?r"
      and bucket: "tag = [] \<or> (tag \<in> set (themes (?r ! i))) = (tag \<in> set (themes (?r ! j)))"
    for i j
  proof (cases "tag = []")
    case True
    with sortNodesByTag_no_tag_sorted [OF assms, of xs] ij show ?thesis
      by (simp add: sorted_wrt_iff_nth_less)
  next
    case False
    with sortNodesByTag_tag_sorted [OF assms False, of xs] ij
    have "compare_tag lc tag (?r ! i) (?r ! j) \<le> 0"
      by (simp add: sorted_wrt_iff_nth_less)
    with False bucket show ?thesis
      unfolding compare_tag_le by blast
  qed
  have c: "\<forall>i j. i < j \<and> j < length ?r \<and>
            (tag = [] \<or> (tag \<in> set (themes (?r ! i))) = (tag \<in> set (themes (?r ! j)))) \<longrightarrow>
            (name (?r ! i) = [] \<and> name (?r ! j) = [] \<longrightarrow>
               lc (item_id (?r ! i)) (item_id (?r ! j)) \<le> 0) \<and>
            (name (?r ! i) \<noteq> [] \<and> name (?r ! j) \<noteq> [] \<longrightarrow>
               lc (name (?r ! i)) (name (?r ! j)) \<le> 0)"
  proof (intro allI impI conjI)
    fix i j
    assume h: "i < j \<and> j < length ?r \<and>
            (tag = [] \<or> (tag \<in> set (themes (?r ! i))) = (tag \<in> set (themes (?r ! j))))"
    then have l: "lc (order_key (?r ! i)) (order_key (?r ! j)) \<le> 0"
      using le [of i j] by blast
    { assume "name (?r ! i) = [] \<and> name (?r ! j) = []"
      with l show "lc (item_id (?r ! i)) (item_id (?r ! j)) \<le> 0"
        by (simp add: key) }
    { assume "name (?r ! i) \<noteq> [] \<and> name (?r ! j) \<noteq> []"
      with l show "lc (name (?r ! i)) (name (?r ! j)) \<le> 0"
        by (simp add: key) }
  qed
  have d: "(raw_name d = None \<or> raw_name d = Some []) \<and>
            concat_arg (raw_themes d) = [] \<and> concat_arg (raw_moods d) = [] \<longrightarrow>
            name (load_entry d) = [] \<and> order_key (load_entry d) = raw_id d"
    using load_entry_unnamed [of d] by blast
  from a b c d show ?thesis by (intro conjI)
qed

theorem order_key_falls_back_to_id_witness:
  "consistent ordinal_compare \<and>
   sortNodesByTag ordinal_compare (load_entry unnamed_entry # gallery) []
     = [gallery ! 0, gallery ! 2, gallery ! 3, gallery ! 1, load_entry unnamed_entry] \<and>
   name (gallery ! 3) = [] \<and> item_id (gallery ! 3) = ''p4'' \<and>
   name (load_entry unnamed_entry) = [] \<and> item_id (load_entry unnamed_entry) = ''z'' \<and>
   ordinal_compare ''p4'' ''z'' \<le> 0"
proof -
  let ?r = "sortNodesByTag ordinal_compare (load_entry unnamed_entry # gallery) []"
  have r: "?r = [gallery ! 0, gallery ! 2, gallery ! 3, gallery ! 1, load_entry unnamed_entry]"
    by code_simp
  have p4: "name (gallery ! 3) = []" "item_id (gallery ! 3) = ''p4''"
    by (simp_all add: gallery_def)
  have z: "name (load_entry unnamed_entry) = []" "item_id (load_entry unnamed_entry) = ''z''"
    by (simp_all add: unnamed_entry_def load_entry_def derived_name_def)
  have pos: "?r ! 2 = gallery ! 3" "?r ! 4 = load_entry unnamed_entry" "length ?r = 5"
    unfolding r by simp_all
  note inst = order_key_falls_back_to_id [OF consistent_ordinal_compare,
      where xs = "load_entry unnamed_entry # gallery" and tag = "[]",
      THEN conjunct2, THEN conjunct2, THEN conjunct1,
      THEN spec [where x = 2], THEN spec [where x = 4]]
  have "name (?r ! 2) = [] \<and> name (?r ! 4) = [] \<longrightarrow>
               ordinal_compare (item_id (?r ! 2)) (item_id (?r ! 4)) \<le> 0"
    using inst pos(3) by simp
  then have "ordinal_compare ''p4'' ''z'' \<le> 0"
    unfolding pos p4 z by simp
  with consistent_ordinal_compare r p4 z show ?thesis
    by (intro conjI)
qed

subsection \<open>Claims about the filter projection\<close>

text \<open>
  C3. For a non-empty tag \<open>T\<close>, \<open>rebuildForFilter\<close> succeeds; its nodes are the items of
  \<open>fullNodes\<close> that have \<open>T\<close> among their themes, each as often as \<open>fullNodes\<close> has it,
  in the order \<open>sortNodesByTag\<close> gives them (ascending by sort key when the
  collation is consistent, since all of them have the tag); the selection commutes with
  any rewriting of the moods; and every link has as source id and target id the id of
  one of these nodes, the links being those of \<open>buildLinks\<close> with endpoints bound.
\<close>

theorem rebuildForFilter_projection:
  assumes "T \<noteq> []"
  shows "\<exists>s'. rebuildForFilter lc r T s = Inr s' \<and>
      graphData_nodes s' = sortNodesByTag lc (filter (\<lambda>n. T \<in> set (themes n)) (fullNodes s)) T \<and>
      mset (graphData_nodes s') = mset (filter (\<lambda>n. T \<in> set (themes n)) (fullNodes s)) \<and>
      (\<forall>g. applyThemeFilter (map (moods_update g) (fullNodes s)) T
             = map (moods_update g) (applyThemeFilter (fullNodes s) T)) \<and>
      (consistent lc \<longrightarrow>
         sorted_wrt (\<lambda>a b. lc (order_key a) (order_key b) \<le> 0) (graphData_nodes s')) \<and>
      map link_ids (graphData_links s') = map link_ids (buildLinks (graphData_nodes s')) \<and>
      (\<forall>l \<in> set (graphData_links s').
         endpoint_id (source l) \<in> item_id ` set (graphData_nodes s') \<and>
         endpoint_id (target l) \<in> item_id ` set (graphData_nodes s'))"
proof -
  let ?sel = "filter (\<lambda>n. T \<in> set (themes n)) (fullNodes s)"
  have sel: "applyThemeFilter (fullNodes s) T = ?sel"
    using assms by (simp add: applyThemeFilter_def array_includes_def)
  from rebuildForFilter_result [of lc r T s] obtain s'
    where r: "rebuildForFilter lc r T s = Inr s'"
      and n: "graphData_nodes s' = sortNodesByTag lc ?sel T"
      and l: "map link_ids (graphData_links s') = map link_ids (buildLinks (graphData_nodes s'))"
    unfolding sel by blast
  have m: "mset (graphData_nodes s') = mset ?sel"
    by (simp add: n mset_sortNodesByTag)
  have o: "sorted_wrt (\<lambda>a b. lc (order_key a) (order_key b) \<le> 0) (graphData_nodes s')"
    if c: "consistent lc"
  proof -
    have "set (graphData_nodes s') = set ?sel"
      using m by (rule mset_eq_setD)
    then have all: "\<forall>x \<in> set (graphData_nodes s'). T \<in> set (themes x)"
      by simp
    have "sorted_wrt (\<lambda>a b. compare_tag lc T a b \<le> 0) (graphData_nodes s')"
      unfolding n by (rule sortNodesByTag_tag_sorted [OF c assms])
    then show ?thesis
      by (rule sorted_wrt_mono_rel [rotated]) (use all in \<open>auto simp: compare_tag_le\<close>)
  qed
  have e: "endpoint_id (source l) \<in> item_id ` set (graphData_nodes s') \<and>
           endpoint_id (target l) \<in> item_id ` set (graphData_nodes s')"
    if "l \<in> set (graphData_links s')" for l
  proof -
    from that have "link_ids l \<in> set (map link_ids (buildLinks (graphData_nodes s')))"
      unfolding l [symmetric] by simp
    then obtain l' where "l' \<in> set (buildLinks (graphData_nodes s'))" "link_ids l = link_ids l'"
      by auto
    with buildLinks_ids_present [of l' "graphData_nodes s'"] show ?thesis
      by (simp add: link_ids_def)
  qed
  from r n m o l e applyThemeFilter_moods show ?thesis by blast
qed

theorem rebuildForFilter_projection_witness:
  "''sea'' \<noteq> [] \<and> consistent ordinal_compare \<and>
   (\<exists>s'. rebuildForFilter ordinal_compare viewport ''sea'' (graph_state gallery (buildLinks gallery)) = Inr s' \<and>
      map item_id (graphData_nodes s') = [''p3'', ''p2''] \<and>
      map link_ids (graphData_links s') = [(''p3'', ''p2'')] \<and>
      sorted_wrt (\<lambda>a b. ordinal_compare (order_key a) (order_key b) \<le> 0) (graphData_nodes s'))"
proof -
  have t: "''sea'' \<noteq> []" by simp
  have f: "fullNodes (graph_state gallery (buildLinks gallery)) = gallery"
    by (simp add: graph_state_def)
  have n: "map item_id (sortNodesByTag ordinal_compare (filter (\<lambda>n. ''sea'' \<in> set (themes n)) gallery) ''sea'')
      = [''p3'', ''p2'']"
    by code_simp
  have l: "map link_ids (buildLinks (sortNodesByTag ordinal_compare (filter (\<lambda>n. ''sea'' \<in> set (themes n)) gallery) ''sea''))
      = [(''p3'', ''p2'')]"
    by code_simp
  from rebuildForFilter_projection [OF t, of ordinal_compare viewport "graph_state gallery (buildLinks gallery)"]
  obtain s' where "rebuildForFilter ordinal_compare viewport ''sea'' (graph_state gallery (buildLinks gallery)) = Inr s'"
    and "graphData_nodes s' = sortNodesByTag ordinal_compare (filter (\<lambda>n. ''sea'' \<in> set (themes n)) gallery) ''sea''"
    and "map link_ids (graphData_links s') = map link_ids (buildLinks (graphData_nodes s'))"
    and "consistent ordinal_compare \<longrightarrow>
         sorted_wrt (\<lambda>a b. ordinal_compare (order_key a) (order_key b) \<le> 0) (graphData_nodes s')"
    unfolding f by blast
  with n l consistent_ordinal_compare t show ?thesis
    by (intro conjI exI [of _ s']) simp_all
qed

text \<open>
  C5. The scenario: from \<open>A\<close> (themes \<open>x\<close>), \<open>B\<close> (themes \<open>x\<close>, \<open>y\<close>), \<open>C\<close> (themes
  \<open>y\<close>) and \<open>D\<close> (themes \<open>z\<close>), without moods, \<open>buildLinks\<close> makes the links
  \<open>A\<close>-\<open>B\<close> and \<open>B\<close>-\<open>C\<close> and no other; filtering by \<open>y\<close> gives the nodes \<open>B\<close>, \<open>C\<close> in
  this order and the one link \<open>B\<close>-\<open>C\<close>. The names are the derived ones, \<open>x, y\<close> for
  \<open>B\<close> and \<open>y\<close> for \<open>C\<close>, and the collation is any that does not put \<open>x, y\<close> after
  \<open>y\<close>.
\<close>

theorem scenario_links_and_filter:
  assumes "lc ''x, y'' ''y'' \<le> 0"
  shows "buildLinks [item_A, item_B, item_C, item_D] =
           [\<lparr>source = EId ''A'', target = EId ''B''\<rparr>,
            \<lparr>source = EId ''B'', target = EId ''C''\<rparr>] \<and>
         (\<exists>s'. rebuildForFilter lc r ''y'' (s\<lparr>fullNodes := [item_A, item_B, item_C, item_D]\<rparr>) = Inr s' \<and>
            graphData_nodes s' = [item_B, item_C] \<and>
            graphData_links s' = [\<lparr>source = ENode item_B, target = ENode item_C\<rparr>] \<and>
            map link_ids (graphData_links s') = [(''B'', ''C'')])"
proof -
  let ?s = "s\<lparr>fullNodes := [item_A, item_B, item_C, item_D]\<rparr>"
  from rebuildForFilter_result [of lc r "''y''" ?s]
  obtain s' ls where r: "rebuildForFilter lc r ''y'' ?s = Inr s'"
    and n: "graphData_nodes s' = sortNodesByTag lc (applyThemeFilter (fullNodes ?s) ''y'') ''y''"
    and l: "graphData_links s' = ls"
      "forceLink_initialize (graphData_nodes s') (buildLinks (graphData_nodes s')) = Inr ls"
    by blast
  from n have n': "graphData_nodes s' = [item_B, item_C]"
    by (simp add: scenario_selected scenario_ordered [of lc, OF assms])
  from l have l': "graphData_links s' = [\<lparr>source = ENode item_B, target = ENode item_C\<rparr>]"
    unfolding n' scenario_filtered_links by simp
  have "map link_ids [\<lparr>source = ENode item_B, target = ENode item_C\<rparr>] = [(''B'', ''C'')]"
    by code_simp
  with r n' l' scenario_links show ?thesis by simp
qed



theorem scenario_links_and_filter_witness:
  "ordinal_compare ''x, y'' ''y'' \<le> 0 \<and>
   (\<exists>s'. rebuildForFilter ordinal_compare viewport ''y''
            ((graph_state [] [])\<lparr>fullNodes := [item_A, item_B, item_C, item_D]\<rparr>) = Inr s' \<and>
      graphData_nodes s' = [item_B, item_C] \<and>
      map link_ids (graphData_links s') = [(''B'', ''C'')])"
proof -
  have h: "ordinal_compare ''x, y'' ''y'' \<le> 0" by code_simp
  from scenario_links_and_filter [of ordinal_compare viewport "graph_state [] []", OF h]
  obtain s' where "rebuildForFilter ordinal_compare viewport ''y''
            ((graph_state [] [])\<lparr>fullNodes := [item_A, item_B, item_C, item_D]\<rparr>) = Inr s'"
    "graphData_nodes s' = [item_B, item_C]"
    "map link_ids (graphData_links s') = [(''B'', ''C'')]"
    by (elim conjE exE)
  with h show ?thesis
    by (intro conjI exI [of _ s'])
qed

subsection \<open>Claims about loading\<close>

text \<open>
  C7. An entry whose \<open>themes\<close> field is omitted or is not an array is loaded with the
  empty list of themes. The loaded node is in no result of the theme filter for a
  non-empty tag, shares a theme with no node, and is connected to a node exactly when
  their moods intersect. Loading a document that contains the entry succeeds, with the
  links of \<open>buildLinks\<close>, and so does every rebuild for a filter over nodes that
  contain it.
\<close>

theorem load_entry_without_themes:
  assumes "raw_themes d = Omitted \<or> (\<exists>t v. raw_themes d = NonArray t v)"
  shows "themes (load_entry d) = [] \<and>
         (\<forall>nodes T. T \<noteq> [] \<longrightarrow> load_entry d \<notin> set (applyThemeFilter nodes T)) \<and>
         (\<forall>b. \<not> array_some (themes (load_entry d)) (\<lambda>t. array_includes (themes b) t) \<and>
              \<not> array_some (themes b) (\<lambda>t. array_includes (themes (load_entry d)) t)) \<and>
         (\<forall>b. nodesShareConnection (load_entry d) b
                 = (set (moods (load_entry d)) \<inter> set (moods b) \<noteq> {}) \<and>
              nodesShareConnection b (load_entry d)
                 = (set (moods b) \<inter> set (moods (load_entry d)) \<noteq> {})) \<and>
         (\<forall>ds. d \<in> set ds \<longrightarrow>
            loadData (Response True (Document (Some ds)))
              = Inr (map load_entry ds, buildLinks (map load_entry ds))) \<and>
         (\<forall>lc r T s. load_entry d \<in> set (fullNodes s) \<longrightarrow>
            (\<exists>s'. rebuildForFilter lc r T s = Inr s'))"
proof -
  from assms have t: "themes (load_entry d) = []"
    by (auto simp: load_entry_def)
  have f: "\<forall>nodes T. T \<noteq> [] \<longrightarrow> load_entry d \<notin> set (applyThemeFilter nodes T)"
    by (simp add: applyThemeFilter_def array_includes_def t)
  have s: "\<forall>b. \<not> array_some (themes (load_entry d)) (\<lambda>t. array_includes (themes b) t) \<and>
              \<not> array_some (themes b) (\<lambda>t. array_includes (themes (load_entry d)) t)"
    by (simp add: array_some_def array_includes_def t list_ex_iff)
  have c: "\<forall>b. nodesShareConnection (load_entry d) b
                 = (set (moods (load_entry d)) \<inter> set (moods b) \<noteq> {}) \<and>
              nodesShareConnection b (load_entry d)
                 = (set (moods b) \<inter> set (moods (load_entry d)) \<noteq> {})"
    by (simp add: nodesShareConnection_iff t)
  have l: "\<forall>ds. d \<in> set ds \<longrightarrow>
            loadData (Response True (Document (Some ds)))
              = Inr (map load_entry ds, buildLinks (map load_entry ds))"
    by (simp add: Let_def)
  have r: "\<forall>lc r T s. load_entry d \<in> set (fullNodes s) \<longrightarrow>
            (\<exists>s'. rebuildForFilter lc r T s = Inr s')"
    using rebuildForFilter_result by blast
  from t f s c l r show ?thesis by (intro conjI)
qed

theorem load_entry_without_themes_witness:
  "(raw_themes stray_entry = Omitted \<or> (\<exists>t v. raw_themes stray_entry = NonArray t v)) \<and>
   themes (load_entry stray_entry) = [] \<and>
   moods (load_entry stray_entry) = [''calm''] \<and>
   nodesShareConnection (load_entry stray_entry) (gallery ! 0) \<and>
   map item_id (applyThemeFilter (load_entry stray_entry # gallery) ''city'') = [''p1'', ''p3''] \<and>
   map link_ids (buildLinks (load_entry stray_entry # gallery))
     = [(''q'', ''p1''), (''q'', ''p2''), (''p1'', ''p2''), (''p1'', ''p3''), (''p2'', ''p3'')]"
proof -
  have "raw_themes stray_entry = NonArray True ''city''"
    by (simp add: stray_entry_def)
  then have h: "raw_themes stray_entry = Omitted \<or> (\<exists>t v. raw_themes stray_entry = NonArray t v)"
    by blast
  have m: "moods (load_entry stray_entry) = [''calm'']"
    by (simp add: stray_entry_def load_entry_def)
  have g: "moods (gallery ! 0) = [''calm'']"
    by (simp add: gallery_def)
  have a: "map item_id (applyThemeFilter (load_entry stray_entry # gallery) ''city'') = [''p1'', ''p3'']"
    by code_simp
  have b: "map link_ids (buildLinks (load_entry stray_entry # gallery))
     = [(''q'', ''p1''), (''q'', ''p2''), (''p1'', ''p2''), (''p1'', ''p3''), (''p2'', ''p3'')]"
    by code_simp
  from load_entry_without_themes [OF h]
  have t: "themes (load_entry stray_entry) = []"
    and "nodesShareConnection (load_entry stray_entry) (gallery ! 0)
           = (set (moods (load_entry stray_entry)) \<inter> set (moods (gallery ! 0)) \<noteq> {})"
    by blast+
  then have "nodesShareConnection (load_entry stray_entry) (gallery ! 0)"
    unfolding m g by simp
  with h t m a b show ?thesis by (intro conjI)
qed

subsection \<open>Claims about hovering\<close>

text \<open>
  C2, as the claim states it, fails for a node whose id is the empty string: \<open>setHover\<close>
  tests the hovered id with \<open>if (nodeId)\<close>, which the empty string does not pass, so
  it collects no connected ids although the node has a neighbour, and gives every node
  the neutral style, the hovered one included.
\<close>

theorem setHover_empty_id_counterexample:
  "[] \<in> item_id ` set (graphData_nodes anonymous_state) \<and>
   shares_edge [] (graphData_links anonymous_state) ''b'' \<and>
   \<not> set_has (connected_ids (Some []) (graphData_links anonymous_state)) ''b'' \<and>
   snd (setHover (Some []) anonymous_state) = Some ([neutral_style, neutral_style], [neutral_link]) \<and>
   neutral_style \<noteq> self_style"
proof -
  have a: "[] \<in> item_id ` set (graphData_nodes anonymous_state)"
    by (simp add: anonymous_state_def graph_state_def anonymous_pair_def)
  have b: "shares_edge [] (graphData_links anonymous_state) ''b''"
    by code_simp
  have c: "\<not> set_has (connected_ids (Some []) (graphData_links anonymous_state)) ''b''"
    by code_simp
  have d: "snd (setHover (Some []) anonymous_state) = Some ([neutral_style, neutral_style], [neutral_link])"
    by code_simp
  have e: "neutral_style \<noteq> self_style"
    by (simp add: neutral_style_def self_style_def)
  from a b c d e show ?thesis by (intro conjI)
qed

text \<open>
  C2, amended. For a hovered id \<open>n\<close> that is not the empty string and is the id of a
  node of the graph: an id is in the connected set exactly when some link joins it to
  \<open>n\<close>, in either direction, and the set holds no id twice; \<open>setHover\<close> styles every
  node, as self when its id is \<open>n\<close> (full opacity, scale \<open>hoverScale\<close>), else as
  connected when its id is in the connected set (full opacity, scale
  \<open>connectedScale\<close>), else as other (opacity \<open>unrelatedOpacity\<close>, below 1, and scale
  1). With no hovered node every node gets opacity 1 and scale 1.
\<close>

theorem setHover_classification:
  assumes "n \<noteq> []" and "n \<in> item_id ` set (graphData_nodes s)"
  shows "(\<forall>x. set_has (connected_ids (Some n) (graphData_links s)) x
               = shares_edge n (graphData_links s) x) \<and>
         distinct (connected_ids (Some n) (graphData_links s)) \<and>
         (\<exists>ns ls. setHover (Some n) s = (s\<lparr>hoveredNodeId := Some n\<rparr>, Some (ns, ls)) \<and>
            length ns = length (graphData_nodes s) \<and>
            (\<forall>k < length (graphData_nodes s).
               ns ! k =
                 (if item_id (graphData_nodes s ! k) = n then self_style
                  else if shares_edge n (graphData_links s) (item_id (graphData_nodes s ! k))
                       then connected_style
                  else other_style))) \<and>
         opacity self_style = 1 \<and> scale self_style = hoverScale CONFIG \<and>
         opacity connected_style = 1 \<and> scale connected_style = connectedScale CONFIG \<and>
         opacity other_style = unrelatedOpacity CONFIG \<and> unrelatedOpacity CONFIG < 1 \<and>
         scale other_style = 1 \<and>
         (case snd (setHover None s) of
            None \<Rightarrow> graphData_nodes s = []
          | Some (ns, ls) \<Rightarrow>
              length ns = length (graphData_nodes s) \<and>
              (\<forall>st \<in> set ns. opacity st = 1 \<and> scale st = 1))"
proof -
  let ?nodes = "graphData_nodes s" and ?links = "graphData_links s"
  let ?ids = "connected_ids (Some n) ?links"
  have c: "set ?ids = {x. shares_edge n ?links x}"
    by (rule set_connected_ids [OF assms(1)])
  then have c': "\<forall>x. set_has ?ids x = shares_edge n ?links x"
    by (auto simp: set_has_def)
  from assms(2) have ne: "?nodes \<noteq> []" by auto
  have h: "setHover (Some n) s =
      (s\<lparr>hoveredNodeId := Some n\<rparr>,
       Some (map (style_node (Some n) ?ids) ?nodes, map (style_link (Some n)) ?links))"
    using ne by (simp add: setHover_def Let_def)
  have k: "\<forall>k < length ?nodes.
      map (style_node (Some n) ?ids) ?nodes ! k =
        (if item_id (?nodes ! k) = n then self_style
         else if shares_edge n ?links (item_id (?nodes ! k)) then connected_style
         else other_style)"
    by (simp add: style_node_hover [OF assms(1)] c)
  have st: "opacity self_style = 1 \<and> scale self_style = hoverScale CONFIG \<and>
         opacity connected_style = 1 \<and> scale connected_style = connectedScale CONFIG \<and>
         opacity other_style = unrelatedOpacity CONFIG \<and> unrelatedOpacity CONFIG < 1 \<and>
         scale other_style = 1"
    by (simp add: self_style_def connected_style_def other_style_def CONFIG_def)
  have idle: "case snd (setHover None s) of
            None \<Rightarrow> graphData_nodes s = []
          | Some (ns, ls) \<Rightarrow>
              length ns = length (graphData_nodes s) \<and>
              (\<forall>st \<in> set ns. opacity st = 1 \<and> scale st = 1)"
    by (simp add: setHover_def Let_def style_node_idle neutral_style_def)
  from h k have ex: "\<exists>ns ls. setHover (Some n) s = (s\<lparr>hoveredNodeId := Some n\<rparr>, Some (ns, ls)) \<and>
            length ns = length ?nodes \<and>
            (\<forall>k < length ?nodes.
               ns ! k =
                 (if item_id (?nodes ! k) = n then self_style
                  else if shares_edge n ?links (item_id (?nodes ! k)) then connected_style
                  else other_style))"
    by (intro exI [of _ "map (style_node (Some n) ?ids) ?nodes"]
          exI [of _ "map (style_link (Some n)) ?links"]) simp
  from c' distinct_connected_ids [of "Some n" ?links] ex st idle show ?thesis
    by (intro conjI) simp_all
qed

theorem setHover_classification_witness:
  "''p1'' \<noteq> [] \<and> ''p1'' \<in> item_id ` set (graphData_nodes gallery_state) \<and>
   connected_ids (Some ''p1'') (graphData_links gallery_state) = [''p2'', ''p3''] \<and>
   shares_edge ''p1'' (graphData_links gallery_state) ''p2'' \<and>
   snd (setHover (Some ''p1'') gallery_state)
     = Some ([self_style, connected_style, connected_style, other_style],
             [touching_link, touching_link, dimmed_link])"
proof -
  have a: "''p1'' \<noteq> []" by simp
  have b: "''p1'' \<in> item_id ` set (graphData_nodes gallery_state)"
    by (simp add: gallery_state_def graph_state_def gallery_def)
  have c: "connected_ids (Some ''p1'') (graphData_links gallery_state) = [''p2'', ''p3'']"
    by code_simp
  have d: "snd (setHover (Some ''p1'') gallery_state)
     = Some ([self_style, connected_style, connected_style, other_style],
             [touching_link, touching_link, dimmed_link])"
    by code_simp
  note inst = setHover_classification [OF a b, THEN conjunct1, THEN spec [where x = "''p2''"]]
  have "set_has (connected_ids (Some ''p1'') (graphData_links gallery_state)) ''p2''"
    unfolding c by (simp add: set_has_def)
  with inst have e: "shares_edge ''p1'' (graphData_links gallery_state) ''p2''"
    by simp
  from a b c e d show ?thesis by (intro conjI)
qed

text \<open>
  C6. In every page the script can reach, if the hovered id is not the id of any node
  of the current graph, then every node and every link has its element, every node
  element carries neither highlight class and shows at opacity 1 and scale 1, and every
  link element has the neutral stroke colour and is neither hovered nor dimmed. A
  filter change leaves \<open>hoveredNodeId\<close> as it is and draws all elements anew, and
  the handlers call \<open>setHover\<close> with the id of a node that has an element, or with
  no id.
\<close>

theorem stale_hover_idle:
  assumes "reachable lc p"
    and "hoveredNodeId (page_state p) = Some n"
    and "n \<notin> item_id ` set (graphData_nodes (page_state p))"
  shows "length (node_elements p) = length (graphData_nodes (page_state p)) \<and>
         length (link_elements p) = length (graphData_links (page_state p)) \<and>
         (\<forall>e \<in> set (node_elements p).
            \<not> has_node_hovered e \<and> \<not> has_node_connected e \<and>
            opacity (shown e) = 1 \<and> scale (shown e) = 1) \<and>
         (\<forall>l \<in> set (link_elements p).
            stroke l = lineColor CONFIG \<and> \<not> hovered l \<and> \<not> dimmed l)"
proof -
  from reachable_in_step [OF assms(1)] assms(2,3)
  have len: "length (node_elements p) = length (graphData_nodes (page_state p))"
      "length (link_elements p) = length (graphData_links (page_state p))"
    and idle: "idle_look p"
    by (auto simp: in_step_def)
  have n: "\<not> has_node_hovered e \<and> \<not> has_node_connected e \<and>
            opacity (shown e) = 1 \<and> scale (shown e) = 1" if "e \<in> set (node_elements p)" for e
  proof -
    from idle that have e: "shown e = neutral_style"
      by (simp add: idle_look_def list_all_iff)
    then have "node_hovered (shown e) = False" "node_connected (shown e) = False"
      "opacity (shown e) = 1" "scale (shown e) = 1"
      by (simp_all add: neutral_style_def)
    then show ?thesis by (simp add: shown_def)
  qed
  have l: "stroke l = lineColor CONFIG \<and> \<not> hovered l \<and> \<not> dimmed l"
    if "l \<in> set (link_elements p)" for l
  proof -
    from idle that have "l = neutral_link"
      by (simp add: idle_look_def list_all_iff)
    then show ?thesis by (simp add: neutral_link_def)
  qed
  from len n l show ?thesis by blast
qed

theorem stale_hover_idle_witness:
  "reachable ordinal_compare stale_page \<and>
   hoveredNodeId (page_state stale_page) = Some ''A'' \<and>
   ''A'' \<notin> item_id ` set (graphData_nodes (page_state stale_page)) \<and>
   map item_id (graphData_nodes (page_state stale_page)) = [''B'', ''C''] \<and>
   map shown
     (node_elements
        (projr (play ordinal_compare [MouseEnter 0]
                  (projr (init ordinal_compare viewport scenario_document)))))
     = [self_style, connected_style, other_style, other_style] \<and>
   map shown (node_elements stale_page) = [neutral_style, neutral_style] \<and>
   link_elements stale_page = [neutral_link] \<and>
   list_all (\<lambda>e. opacity (shown e) = 1 \<and> scale (shown e) = 1) (node_elements stale_page)"
proof -
  let ?boot = "projr (init ordinal_compare viewport scenario_document)"
  have b: "init ordinal_compare viewport scenario_document = Inr ?boot"
    by code_simp
  have q: "play ordinal_compare [MouseEnter 0, FilterClick viewport ''y''] ?boot = Inr stale_page"
    unfolding stale_page_def by code_simp
  from reachable.booted [OF b] have "reachable ordinal_compare ?boot" .
  from reachable_play [OF this q] have r: "reachable ordinal_compare stale_page" .
  have h: "hoveredNodeId (page_state stale_page) = Some ''A''"
    by code_simp
  have ids: "map item_id (graphData_nodes (page_state stale_page)) = [''B'', ''C'']"
    by code_simp
  have a: "''A'' \<notin> item_id ` set (graphData_nodes (page_state stale_page))"
  proof -
    have "''A'' \<notin> set (map item_id (graphData_nodes (page_state stale_page)))"
      unfolding ids by simp
    then show ?thesis by simp
  qed
  have before: "map shown
     (node_elements (projr (play ordinal_compare [MouseEnter 0] ?boot)))
     = [self_style, connected_style, other_style, other_style]"
    by code_simp
  have n: "map shown (node_elements stale_page) = [neutral_style, neutral_style]"
    by code_simp
  have l: "link_elements stale_page = [neutral_link]"
    by code_simp
  from stale_hover_idle [OF r h a]
  have "list_all (\<lambda>e. opacity (shown e) = 1 \<and> scale (shown e) = 1) (node_elements stale_page)"
    unfolding list_all_iff by blast
  with r h a ids before n l show ?thesis by (intro conjI)
qed

subsection \<open>Claims about resizing\<close>

text \<open>
  C9. \<open>onResize\<close> leaves the nodes and links of the graph, the full node list, the
  filter and the hovered id as they are, and so the links that \<open>buildLinks\<close> derives
  from the nodes. Of the simulation, if there is one, it leaves the bound nodes and
  links and the link, charge and collision parameters. It sets the size and view box of
  the drawing surface from the new dimensions, the centre force to the middle of the
  surface, the temperature \<open>alpha\<close> to 0.3, and the timer running.
\<close>

theorem onResize_frame:
  "graphData_nodes (onResize r s) = graphData_nodes s \<and>
   graphData_links (onResize r s) = graphData_links s \<and>
   fullNodes (onResize r s) = fullNodes s \<and>
   activeThemeFilter (onResize r s) = activeThemeFilter s \<and>
   hoveredNodeId (onResize r s) = hoveredNodeId s \<and>
   buildLinks (graphData_nodes (onResize r s)) = buildLinks (graphData_nodes s) \<and>
   map_option sim_nodes (sim (onResize r s)) = map_option sim_nodes (sim s) \<and>
   map_option link_force_links (sim (onResize r s)) = map_option link_force_links (sim s) \<and>
   map_option link_force_distance (sim (onResize r s)) = map_option link_force_distance (sim s) \<and>
   map_option charge_force_strength (sim (onResize r s)) = map_option charge_force_strength (sim s) \<and>
   map_option collision_radius (sim (onResize r s)) = map_option collision_radius (sim s) \<and>
   map_option alphaTarget (sim (onResize r s)) = map_option alphaTarget (sim s) \<and>
   (svg_width (onResize r s), svg_height (onResize r s)) = getDimensions r \<and>
   svg_viewBox (onResize r s) = [0, 0, fst (getDimensions r), snd (getDimensions r)] \<and>
   map_option center_force_x (sim (onResize r s))
     = map_option (\<lambda>m. fst (getDimensions r) / 2) (sim s) \<and>
   map_option center_force_y (sim (onResize r s))
     = map_option (\<lambda>m. snd (getDimensions r) / 2) (sim s) \<and>
   map_option center_force_strength (sim (onResize r s))
     = map_option (\<lambda>m. centerStrength CONFIG) (sim s) \<and>
   map_option alpha (sim (onResize r s)) = map_option (\<lambda>m. 3 / 10) (sim s) \<and>
   map_option running (sim (onResize r s)) = map_option (\<lambda>m. True) (sim s)"
  by (cases "getDimensions r"; cases "sim s") (simp_all add: onResize_def Let_def)

end
